theory Spec2Isabelle
  imports Main
begin

section \<open>The data store of the pipeline (data-store.ts)\<close>

text \<open>
  The store of \<^verbatim>\<open>data-store.ts\<close> keeps every artifact of a pipeline run under a
  key of the \<^verbatim>\<open>mem://\<close> namespace. The embedding follows the TypeScript:
  \<^item> a thrown exception is a value of \<open>error\<close>, and a method that can throw returns
    \<open>error + 'a\<close> (\<open>Inl\<close> the exception);
  \<^item> a method that changes the store takes the store and returns the new one beside
    its result;
  \<^item> the objects of type \<^verbatim>\<open>Data\<close> live in an explicit object table
    (\<open>objects\<close>), and the dictionary \<^verbatim>\<open>store\<close> maps a key to the index of its
    object, so that two keys bound to one object are told apart from two keys bound to
    two equal objects;
  \<^item> a string is a list of bytes (the UTF-8 form of the JavaScript string), a counter
    is a natural number, a position is a pair of integers;
  \<^item> a dictionary holds the keys that the code has written into it: the properties that
    every JavaScript object inherits from its prototype are no keys of the model.
\<close>

subsection \<open>Errors\<close>

datatype error =
    Cancelled
  | WriteConflict string
  | NotFound string
  | DoesNotExist string
  | DanglingMappingReference string string
  | URIError
  | TypeError
  | ExternalError

text \<open>
  \<open>Cancelled\<close> is the \<^verbatim>\<open>OperationCanceledException\<close> of \<^verbatim>\<open>ThrowIfCancelled\<close>;
  \<open>WriteConflict uri\<close> is \<^verbatim>\<open>Error("can only write 'uri' once")\<close>;
  \<open>NotFound uri\<close> is \<^verbatim>\<open>Error("Could not read 'uri'.")\<close>;
  \<open>DoesNotExist uri\<close> is \<^verbatim>\<open>Error("Object 'uri' does not exist.")\<close>;
  \<open>DanglingMappingReference uri inputFile\<close> is
  \<^verbatim>\<open>Error("Source map of 'uri' references 'inputFile' which does not exist")\<close>;
  \<open>URIError\<close> is what \<^verbatim>\<open>decodeURIComponent\<close> throws on a malformed escape;
  \<open>TypeError\<close> is what reading a property of \<^verbatim>\<open>undefined\<close> throws;
  \<open>ExternalError\<close> is whatever the file system or the network throws.
\<close>

subsection \<open>Positions, mapping items and source maps\<close>

text \<open>
  A \<^verbatim>\<open>MappingItem\<close> is what \<^verbatim>\<open>SourceMapConsumer.eachMapping\<close> hands to its
  callback. The generated coordinates are never negative there; the original
  coordinates, the source and the name are \<^verbatim>\<open>null\<close> for an entry with no original.
\<close>

record MappingItem =
  source :: "string option"
  generatedLine :: nat
  generatedColumn :: nat
  originalLine :: "int option"
  originalColumn :: "int option"
  name :: "string option"

record Position =
  line :: int
  column :: int

text \<open>
  A \<^verbatim>\<open>MappedPosition\<close> is what \<^verbatim>\<open>DataHandle.Blame\<close> returns; its line, name and
  source are copied from a mapping item, so they can be \<^verbatim>\<open>null\<close>.
\<close>

record MappedPosition =
  source :: "string option"
  line :: "int option"
  column :: int
  name :: "string option"

text \<open>
  A \<^verbatim>\<open>RawSourceMap\<close> is kept decoded: \<open>mappings\<close> is the sequence of items that
  a \<^verbatim>\<open>SourceMapConsumer\<close> built from the map enumerates, in its order.
\<close>

record RawSourceMap =
  file' :: string
  sources :: "string list"
  mappings :: "MappingItem list"

subsection \<open>Records, handles and the store\<close>

record DataHandle =
  key :: string
  read :: nat

text \<open>
  \<open>read\<close> is the private field of the same name: the reference to the \<^verbatim>\<open>Data\<close>
  object, here its index in the object table.

  Modelled from the spec: \<^verbatim>\<open>Lazy\<close> (imported from \<^verbatim>\<open>../lazy\<close>) is not among the
  sources. The spec has each derived view "computed at most once, on first access, and
  the computed value is retained for the record's lifetime". A view is therefore a slot
  of type \<open>'a option\<close>: \<open>None\<close> until the first access that yields a value, that
  value from then on. What the closures of the views capture (\<^verbatim>\<open>sourceMapFactory\<close>,
  \<^verbatim>\<open>uri\<close> and the handle \<^verbatim>\<open>result\<close>) is kept beside the slots.
  The views \<^verbatim>\<open>yamlAst\<close> and \<^verbatim>\<open>lineIndices\<close> belong to the parsers and are left out.
\<close>

record Metadata =
  artifactType :: string
  sourceMapFactory :: "(DataHandle \<Rightarrow> RawSourceMap) option"
  uri :: string
  result :: DataHandle
  sourceMap :: "RawSourceMap option"
  sourceMapEachMappingByLine :: "MappingItem list list option"
  inputSourceMap :: "RawSourceMap option"

text \<open>
  The metadata of a \<^verbatim>\<open>Data\<close> object is \<open>None\<close> while it is the empty object
  \<^verbatim>\<open>{}\<close> that \<^verbatim>\<open>WriteData\<close> hands to \<^verbatim>\<open>WriteDataInternal\<close>.
\<close>

record Data =
  data :: string
  metadata :: "Metadata option"
  identity :: "string list"

record DataStore =
  isCancellationRequested :: bool
  store :: "string \<rightharpoonup> nat"
  uid :: nat
  objects :: "Data list"

definition BaseUri :: string where
  "BaseUri = ''mem://''"

definition new_DataStore :: DataStore where
  "new_DataStore = \<lparr>isCancellationRequested = False, store = Map.empty, uid = 0, objects = []\<rparr>"

subsection \<open>Strings: counters, percent-encoding, splitting\<close>

text \<open>The decimal form of a counter, as a template literal prints it.\<close>

definition digit :: "nat \<Rightarrow> char" where
  "digit n = ''0123456789'' ! n"

fun toString_nat :: "nat \<Rightarrow> string" where
  "toString_nat n = (if n < 10 then [digit n] else toString_nat (n div 10) @ [digit (n mod 10)])"

declare toString_nat.simps [simp del]

text \<open>
  \<^verbatim>\<open>encodeURIComponent\<close> leaves the letters, the digits and \<^verbatim>\<open>- _ . ! ~ * ' ( )\<close>
  alone and writes every other byte of the UTF-8 form as \<^verbatim>\<open>%XX\<close>. A string is the
  list of the bytes of its UTF-8 form, so a lone surrogate, at which the encoding throws,
  is no input of the model.
\<close>

definition uriUnreserved :: "char \<Rightarrow> bool" where
  "uriUnreserved c \<longleftrightarrow>
     c \<in> set ''ABCDEFGHIJKLMNOPQRSTUVWXYZabcdefghijklmnopqrstuvwxyz0123456789-_.!~*'()''"

definition hexDigit :: "nat \<Rightarrow> char" where
  "hexDigit n = ''0123456789ABCDEF'' ! n"

definition encodeChar :: "char \<Rightarrow> string" where
  "encodeChar c =
     (if uriUnreserved c then [c]
      else [CHR ''%'', hexDigit (of_char c div 16), hexDigit (of_char c mod 16)])"

fun encodeURIComponent :: "string \<Rightarrow> string" where
  "encodeURIComponent [] = []"
| "encodeURIComponent (c # cs) = encodeChar c @ encodeURIComponent cs"

text \<open>
  \<^verbatim>\<open>decodeURIComponent\<close> turns every \<^verbatim>\<open>%XX\<close> back into its byte and throws a
  \<^verbatim>\<open>URIError\<close> at a \<^verbatim>\<open>%\<close> that two hexadecimal digits do not follow. (It also throws
  when the decoded bytes are no UTF-8 text; the bytes that the encoding above has written
  are, and the model leaves that check out.)
\<close>

definition hexValue :: "char \<Rightarrow> nat option" where
  "hexValue c =
     (let n = (of_char c :: nat) in
      if 48 \<le> n \<and> n \<le> 57 then Some (n - 48)
      else if 65 \<le> n \<and> n \<le> 70 then Some (n - 55)
      else if 97 \<le> n \<and> n \<le> 102 then Some (n - 87)
      else None)"

fun decodeURIComponent :: "string \<Rightarrow> error + string" where
  "decodeURIComponent [] = Inr []"
| "decodeURIComponent (c # cs) =
     (if c = CHR ''%'' then
        (case cs of
           h1 # h2 # rest \<Rightarrow>
             (case (hexValue h1, hexValue h2) of
                (Some a, Some b) \<Rightarrow>
                  (case decodeURIComponent rest of
                     Inl e \<Rightarrow> Inl e
                   | Inr s \<Rightarrow> Inr (char_of (16 * a + b) # s))
              | _ \<Rightarrow> Inl URIError)
         | _ \<Rightarrow> Inl URIError)
      else
        (case decodeURIComponent cs of
           Inl e \<Rightarrow> Inl e
         | Inr s \<Rightarrow> Inr (c # s)))"

text \<open>\<^verbatim>\<open>s.split(sep)\<close> for a one-character separator: never the empty array.\<close>

fun split :: "char \<Rightarrow> string \<Rightarrow> string list" where
  "split sep [] = [[]]"
| "split sep (c # cs) =
     (if c = sep then [] # split sep cs
      else (case split sep cs of
              s # ss \<Rightarrow> (c # s) # ss
            | [] \<Rightarrow> [[c]]))"

text \<open>
  Modelled from the spec: \<^verbatim>\<open>ResolveUri\<close> (imported from \<^verbatim>\<open>@microsoft.azure/uri\<close>) is
  not among the sources. The spec has "all keys are resolvable against a single reserved
  scheme root": a reference that carries a scheme of its own (a colon before the first
  \<^verbatim>\<open>/\<close>, \<^verbatim>\<open>?\<close> or \<^verbatim>\<open>#\<close>) is absolute and resolves to itself, any other is put
  behind the root.
\<close>

definition hasScheme :: "string \<Rightarrow> bool" where
  "hasScheme u \<longleftrightarrow> CHR '':'' \<in> set (takeWhile (\<lambda>c. c \<notin> set ''/?#'') u)"

definition ResolveUri :: "string \<Rightarrow> string \<Rightarrow> string" where
  "ResolveUri baseUri pathOrUri = (if hasScheme pathOrUri then pathOrUri else baseUri @ pathOrUri)"

subsection \<open>The store's operations\<close>

definition ThrowIfCancelled :: "DataStore \<Rightarrow> error + unit" where
  "ThrowIfCancelled st = (if isCancellationRequested st then Inl Cancelled else Inr ())"

definition Read :: "DataStore \<Rightarrow> string \<Rightarrow> error + DataHandle" where
  "Read st u =
     (let u' = ResolveUri BaseUri u in
      case store st u' of
        None \<Rightarrow> Inl (NotFound u')
      | Some d \<Rightarrow> Inr \<lparr>key = u', read = d\<rparr>)"

definition ReadStrictSync :: "DataStore \<Rightarrow> string \<Rightarrow> error + DataHandle" where
  "ReadStrictSync st absoluteUri =
     (case store st absoluteUri of
        None \<Rightarrow> Inl (DoesNotExist absoluteUri)
      | Some entry \<Rightarrow> Inr \<lparr>key = absoluteUri, read = entry\<rparr>)"

text \<open>
  \<^verbatim>\<open>WriteDataInternal\<close>: the cancellation check, then the write-once check, then the
  new object is bound to the key and the key is read back.
\<close>

definition WriteDataInternal ::
  "DataStore \<Rightarrow> string \<Rightarrow> string \<Rightarrow> Metadata option \<Rightarrow> string list \<Rightarrow> (error + DataHandle) \<times> DataStore"
where
  "WriteDataInternal st u d md ident =
     (case ThrowIfCancelled st of
        Inl e \<Rightarrow> (Inl e, st)
      | Inr _ \<Rightarrow>
          if store st u \<noteq> None then (Inl (WriteConflict u), st)
          else
            let st' = st\<lparr>store := (store st)(u \<mapsto> length (objects st)),
                        objects := objects st @ [\<lparr>data = d, metadata = md, identity = ident\<rparr>]\<rparr>
            in (Read st' u, st'))"

definition createUri :: "DataStore \<Rightarrow> string \<Rightarrow> string \<times> DataStore" where
  "createUri st description =
     (ResolveUri BaseUri (toString_nat (uid st) @ ''?'' @ encodeURIComponent description),
      st\<lparr>uid := uid st + 1\<rparr>)"

text \<open>
  \<^verbatim>\<open>WriteData\<close>: a fresh key, the internal write with the empty metadata object, and
  then the metadata object, which sits in the record just added to the object table, is
  filled in: the tag and the views, none of them computed yet.
\<close>

definition new_Metadata ::
  "string \<Rightarrow> (DataHandle \<Rightarrow> RawSourceMap) option \<Rightarrow> string \<Rightarrow> DataHandle \<Rightarrow> Metadata"
where
  "new_Metadata artifact sourceMapFactory' uri' result' =
     \<lparr>artifactType = artifact, sourceMapFactory = sourceMapFactory', uri = uri', result = result',
      sourceMap = None, sourceMapEachMappingByLine = None, inputSourceMap = None\<rparr>"

definition WriteData ::
  "DataStore \<Rightarrow> string \<Rightarrow> string \<Rightarrow> string \<Rightarrow> string list \<Rightarrow> (DataHandle \<Rightarrow> RawSourceMap) option
     \<Rightarrow> (error + DataHandle) \<times> DataStore"
where
  "WriteData st description d artifact ident sourceMapFactory' =
     (let (uri', st1) = createUri st description in
      case WriteDataInternal st1 uri' d None ident of
        (Inl e, st2) \<Rightarrow> (Inl e, st2)
      | (Inr h, st2) \<Rightarrow>
          (Inr h,
           st2\<lparr>objects := (objects st2)[length (objects st1) :=
                  (objects st2 ! length (objects st1))
                    \<lparr>metadata := Some (new_Metadata artifact sourceMapFactory' uri' h)\<rparr>]\<rparr>))"

text \<open>
  The two closures that \<^verbatim>\<open>getDataSink\<close> hands to the \<^verbatim>\<open>DataSink\<close>: \<open>sink_write\<close>
  (reached through \<^verbatim>\<open>WriteDataWithSourceMap\<close>) and \<open>sink_forward\<close> (reached through
  \<^verbatim>\<open>Forward\<close>). An artifact that is \<^verbatim>\<open>undefined\<close> or empty gives way to the default.
\<close>

definition sink_write ::
  "string \<Rightarrow> DataStore \<Rightarrow> string \<Rightarrow> string \<Rightarrow> string option \<Rightarrow> string list \<Rightarrow> (DataHandle \<Rightarrow> RawSourceMap)
     \<Rightarrow> (error + DataHandle) \<times> DataStore"
where
  "sink_write defaultArtifact st description d artifact ident sourceMapFactory' =
     WriteData st description d
       (case artifact of None \<Rightarrow> defaultArtifact | Some a \<Rightarrow> if a = [] then defaultArtifact else a)
       ident (Some sourceMapFactory')"

definition sink_forward :: "DataStore \<Rightarrow> string \<Rightarrow> DataHandle \<Rightarrow> (error + DataHandle) \<times> DataStore" where
  "sink_forward st description input =
     (let (u, st1) = createUri st description;
          st2 = st1\<lparr>store := (store st1)(u := store st1 (key input))\<rparr>
      in (Read st2 u, st2))"

subsection \<open>Data handles\<close>

definition ReadData :: "DataStore \<Rightarrow> DataHandle \<Rightarrow> string" where
  "ReadData st h = data (objects st ! read h)"

definition identity_of :: "DataStore \<Rightarrow> DataHandle \<Rightarrow> string list" where
  "identity_of st h = identity (objects st ! read h)"

definition metadata_of :: "DataStore \<Rightarrow> DataHandle \<Rightarrow> Metadata option" where
  "metadata_of st h = metadata (objects st ! read h)"

definition artifactType_of :: "DataStore \<Rightarrow> DataHandle \<Rightarrow> string option" where
  "artifactType_of st h = map_option artifactType (metadata_of st h)"

definition Description :: "DataHandle \<Rightarrow> error + string" where
  "Description h = decodeURIComponent (hd (rev (split CHR ''?'' (key h))))"

subsection \<open>Derived views\<close>

text \<open>
  \<open>update_metadata\<close> is an assignment to a field of the metadata object of a record.
\<close>

definition update_metadata :: "DataStore \<Rightarrow> nat \<Rightarrow> (Metadata \<Rightarrow> Metadata) \<Rightarrow> DataStore" where
  "update_metadata st r f =
     st\<lparr>objects := (objects st)[r := (objects st ! r)\<lparr>metadata := map_option f (metadata (objects st ! r))\<rparr>]\<rparr>"

text \<open>
  \<open>emptySourceMap\<close> is \<^verbatim>\<open>new SourceMapGenerator().toJSON()\<close>: no file, no source, no
  mapping. \<open>inputFiles\<close> is the list \<^verbatim>\<open>sourceMap.sources.concat(sourceMap.file)\<close> that
  the validation of \<^verbatim>\<open>WriteData\<close> walks.
\<close>

definition emptySourceMap :: RawSourceMap where
  "emptySourceMap = \<lparr>file' = [], sources = [], mappings = []\<rparr>"

definition inputFiles :: "RawSourceMap \<Rightarrow> string list" where
  "inputFiles sm = sources sm @ [file' sm]"

text \<open>
  The factory of the view \<^verbatim>\<open>sourceMap\<close>: the closure that \<^verbatim>\<open>WriteData\<close> builds. It
  looks the input files up in the store as the store is when the view is accessed.
\<close>

definition sourceMap_factory :: "DataStore \<Rightarrow> Metadata \<Rightarrow> error + RawSourceMap" where
  "sourceMap_factory st md =
     (case sourceMapFactory md of
        None \<Rightarrow> Inr emptySourceMap
      | Some f \<Rightarrow>
          let sm = f (result md) in
          (case find (\<lambda>inputFile. store st inputFile = None) (inputFiles sm) of
             Some inputFile \<Rightarrow> Inl (DanglingMappingReference (uri md) inputFile)
           | None \<Rightarrow> Inr sm))"

text \<open>\<^verbatim>\<open>handle.metadata.sourceMap.Value\<close>.\<close>

definition sourceMap_Value :: "DataStore \<Rightarrow> DataHandle \<Rightarrow> (error + RawSourceMap) \<times> DataStore" where
  "sourceMap_Value st h =
     (case metadata (objects st ! read h) of
        None \<Rightarrow> (Inl TypeError, st)
      | Some md \<Rightarrow>
          (case sourceMap md of
             Some v \<Rightarrow> (Inr v, st)
           | None \<Rightarrow>
               (case sourceMap_factory st md of
                  Inl e \<Rightarrow> (Inl e, st)
                | Inr v \<Rightarrow> (Inr v, update_metadata st (read h) (\<lambda>m. m\<lparr>sourceMap := Some v\<rparr>)))))"

text \<open>
  The callback of \<^verbatim>\<open>eachMapping\<close> in the view \<^verbatim>\<open>sourceMapEachMappingByLine\<close>: the
  \<^verbatim>\<open>while\<close> loop that pads the result up to the generated line, and the push.
\<close>

function pad :: "MappingItem list list \<Rightarrow> nat \<Rightarrow> MappingItem list list" where
  "pad res n = (if length res \<le> n then pad (res @ [[]]) n else res)"
  by pat_completeness auto
termination
  by (relation "measure (\<lambda>(res, n). Suc n - length res)") auto

declare pad.simps [simp del]

definition byLine_push :: "MappingItem list list \<Rightarrow> MappingItem \<Rightarrow> MappingItem list list" where
  "byLine_push res mapping =
     (let res' = pad res (generatedLine mapping)
      in res'[generatedLine mapping := res' ! generatedLine mapping @ [mapping]])"

definition eachMapping_byLine :: "MappingItem list \<Rightarrow> MappingItem list list" where
  "eachMapping_byLine ms = foldl byLine_push [] ms"

text \<open>\<^verbatim>\<open>handle.metadata.sourceMapEachMappingByLine.Value\<close>.\<close>

definition sourceMapEachMappingByLine_Value ::
  "DataStore \<Rightarrow> DataHandle \<Rightarrow> (error + MappingItem list list) \<times> DataStore"
where
  "sourceMapEachMappingByLine_Value st h =
     (case metadata (objects st ! read h) of
        None \<Rightarrow> (Inl TypeError, st)
      | Some md \<Rightarrow>
          (case sourceMapEachMappingByLine md of
             Some v \<Rightarrow> (Inr v, st)
           | None \<Rightarrow>
               (case sourceMap_Value st h of
                  (Inl e, st1) \<Rightarrow> (Inl e, st1)
                | (Inr sm, st1) \<Rightarrow>
                    let v = eachMapping_byLine (mappings sm)
                    in (Inr v, update_metadata st1 (read h) (\<lambda>m. m\<lparr>sourceMapEachMappingByLine := Some v\<rparr>)))))"

subsection \<open>Blame, one hop\<close>

text \<open>
  \<open>byLine_at v l\<close> is \<^verbatim>\<open>v[l] || []\<close>: the bucket of line \<open>l\<close>, empty when \<open>l\<close> is
  not an index of the array. \<open>js_add\<close> is \<^verbatim>\<open>+\<close> on a number that may be \<^verbatim>\<open>null\<close>
  (which counts as 0).
\<close>

definition byLine_at :: "MappingItem list list \<Rightarrow> int \<Rightarrow> MappingItem list" where
  "byLine_at v l = (if 0 \<le> l \<and> nat l < length v then v ! nat l else [])"

definition js_add :: "int option \<Rightarrow> int \<Rightarrow> int" where
  "js_add a b = (case a of None \<Rightarrow> b | Some x \<Rightarrow> x + b)"

text \<open>\<^verbatim>\<open>DataHandle.Blame\<close>, on the value of the per-line view of the handle.\<close>

definition Blame :: "MappingItem list list \<Rightarrow> Position \<Rightarrow> MappedPosition list" where
  "Blame byLine position =
     (let sameLineResults =
            filter (\<lambda>mapping. int (generatedColumn mapping) \<le> Position.column position)
              (byLine_at byLine (Position.line position));
          maxColumn = foldl (\<lambda>c m. max c (int (generatedColumn m))) 0 sameLineResults;
          columnDelta = Position.column position - maxColumn
      in map (\<lambda>m. \<lparr>MappedPosition.source = MappingItem.source m, line = originalLine m,
                    column = js_add (originalColumn m) columnDelta, MappedPosition.name = MappingItem.name m\<rparr>)
           (filter (\<lambda>m. int (generatedColumn m) = maxColumn) sameLineResults))"

subsection \<open>Blame, in the words of the spec\<close>

text \<open>
  The resolution at a line as the spec words it, to be compared with \<open>Blame\<close>: an entry
  of the mapping table is in force at a position when it lies on the line of the position,
  at a generated column that is not beyond the column of the position, and no entry of
  the line that is not beyond it lies at a greater generated column. Its result is the
  original position moved by the distance from the entry to the position.
\<close>

definition inForce :: "MappingItem list \<Rightarrow> Position \<Rightarrow> MappingItem \<Rightarrow> bool" where
  "inForce table position m \<longleftrightarrow>
     int (generatedLine m) = Position.line position \<and>
     int (generatedColumn m) \<le> Position.column position \<and>
     (\<forall>m' \<in> set table.
        int (generatedLine m') = Position.line position \<and>
        int (generatedColumn m') \<le> Position.column position
        \<longrightarrow> generatedColumn m' \<le> generatedColumn m)"

definition blameResult :: "Position \<Rightarrow> MappingItem \<Rightarrow> MappedPosition" where
  "blameResult position m =
     \<lparr>MappedPosition.source = MappingItem.source m, line = originalLine m,
      column = js_add (originalColumn m) (Position.column position - int (generatedColumn m)),
      MappedPosition.name = MappingItem.name m\<rparr>"

section \<open>The read-through view (ReadThroughDataSource)\<close>

subsection \<open>The text replacement\<close>

text \<open>
  \<^verbatim>\<open>data.replace(/\$\(this-folder\)/g, parent)\<close> replaces the occurrences of the token
  from left to right, resuming behind each one. The second argument is a replacement
  pattern: in it \<^verbatim>\<open>$$\<close> stands for a dollar sign, \<^verbatim>\<open>$&\<close> for the matched text,
  \<^verbatim>\<open>$`\<close> for the text before the match and \<^verbatim>\<open>$'\<close> for the text behind it (the
  expression has no group, so no other pattern applies).
\<close>

definition this_folder :: string where
  "this_folder = ''$(this-folder)''"

fun expandReplacement :: "string \<Rightarrow> string \<Rightarrow> string \<Rightarrow> string \<Rightarrow> string" where
  "expandReplacement [] matched before behind = []"
| "expandReplacement [c] matched before behind = [c]"
| "expandReplacement (c # c' # r) matched before behind =
     (if c = CHR ''$'' \<and> c' = CHR ''$'' then CHR ''$'' # expandReplacement r matched before behind
      else if c = CHR ''$'' \<and> c' = CHR ''&'' then matched @ expandReplacement r matched before behind
      else if c = CHR ''$'' \<and> c' = CHR 0x60 then before @ expandReplacement r matched before behind
      else if c = CHR ''$'' \<and> c' = CHR 0x27 then behind @ expandReplacement r matched before behind
      else c # expandReplacement (c' # r) matched before behind)"

function replace_this_folder :: "string \<Rightarrow> string \<Rightarrow> string \<Rightarrow> string" where
  "replace_this_folder replacement before s =
     (if s = [] then []
      else if take (length this_folder) s = this_folder then
        expandReplacement replacement this_folder before (drop (length this_folder) s)
          @ replace_this_folder replacement (before @ this_folder) (drop (length this_folder) s)
      else hd s # replace_this_folder replacement (before @ [hd s]) (tl s))"
  by pat_completeness auto
termination
  by (relation "measure (\<lambda>(replacement, before, s). length s)") (auto simp: this_folder_def)

declare replace_this_folder.simps [simp del]

text \<open>
  In the words of the spec, "every occurrence of the token replaced by the parent
  location": the plain replacement of each occurrence, from left to right.
\<close>

function replaceEvery :: "string \<Rightarrow> string \<Rightarrow> string \<Rightarrow> string" where
  "replaceEvery token replacement s =
     (if s = [] \<or> token = [] then s
      else if take (length token) s = token then
        replacement @ replaceEvery token replacement (drop (length token) s)
      else hd s # replaceEvery token replacement (tl s))"
  by pat_completeness auto
termination
  by (relation "measure (\<lambda>(token, replacement, s). length s)") auto

declare replaceEvery.simps [simp del]

subsection \<open>The outside world\<close>

text \<open>
  The file system handed to the view (\<^verbatim>\<open>fs.ReadFile\<close>), \<^verbatim>\<open>ReadUri\<close> and
  \<^verbatim>\<open>ParentFolderUri\<close> (both imported from \<^verbatim>\<open>@microsoft.azure/uri\<close>) are parameters of
  the model: what they answer at the time of a call. A read that throws is \<open>Inl\<close>, a
  parent that is \<^verbatim>\<open>null\<close> is \<open>None\<close>. The calls made to the first two are recorded
  in a trace.
\<close>

record External =
  ReadFile :: "string \<Rightarrow> error + string"
  ReadUri :: "string \<Rightarrow> error + string"
  ParentFolderUri :: "string \<Rightarrow> string option"

datatype extcall = ReadFileCall string | ReadUriCall string

text \<open>
  \<^verbatim>\<open>data = await this.fs.ReadFile(uri) || await ReadUri(uri)\<close>: the trace of the calls and
  the value assigned to \<^verbatim>\<open>data\<close>, \<open>None\<close> when a call throws and \<^verbatim>\<open>data\<close> stays
  \<^verbatim>\<open>null\<close>. An empty answer of the file system is falsy and gives way to \<^verbatim>\<open>ReadUri\<close>.
\<close>

definition fetch :: "External \<Rightarrow> string \<Rightarrow> extcall list \<times> string option" where
  "fetch ext u =
     (case ReadFile ext u of
        Inl e \<Rightarrow> ([ReadFileCall u], None)
      | Inr t \<Rightarrow>
          if t \<noteq> [] then ([ReadFileCall u], Some t)
          else (case ReadUri ext u of
                  Inl e \<Rightarrow> ([ReadFileCall u, ReadUriCall u], None)
                | Inr t' \<Rightarrow> ([ReadFileCall u, ReadUriCall u], Some t')))"

text \<open>
  The \<^verbatim>\<open>if (data)\<close> of the \<^verbatim>\<open>try\<close> block: a non-empty text has the token replaced by
  \<^verbatim>\<open>ParentFolderUri(uri) || ''\<close>.
\<close>

definition parentOf :: "External \<Rightarrow> string \<Rightarrow> string" where
  "parentOf ext u = (case ParentFolderUri ext u of None \<Rightarrow> [] | Some p \<Rightarrow> p)"

definition populate :: "External \<Rightarrow> string \<Rightarrow> string option \<Rightarrow> string option" where
  "populate ext u fetched =
     (case fetched of
        None \<Rightarrow> None
      | Some t \<Rightarrow> if t \<noteq> [] then Some (replace_this_folder (parentOf ext u) [] t) else Some t)"

subsection \<open>The cache of promises\<close>

text \<open>
  A slot of \<^verbatim>\<open>cache\<close> holds a promise. The body of the asynchronous function that makes
  the promise runs, at the call, up to its first \<^verbatim>\<open>await\<close>: the probe
  \<^verbatim>\<open>this.store.Read(uri)\<close> (which has no \<^verbatim>\<open>await\<close> of its own) is over when the promise
  is stored. So a promise is either pending, with the outcome of its probe, or settled:
  fulfilled with a handle or with \<^verbatim>\<open>null\<close>, or rejected.
\<close>

datatype promise =
    Pending "error + DataHandle"
  | Settled "error + DataHandle option"

record ReadThroughDataSource =
  uris :: "string list"
  cache :: "string \<rightharpoonup> promise"

definition new_ReadThroughDataSource :: ReadThroughDataSource where
  "new_ReadThroughDataSource = \<lparr>uris = [], cache = Map.empty\<rparr>"

text \<open>
  \<open>Read_call\<close> is what \<^verbatim>\<open>Read(uri)\<close> does before it returns \<^verbatim>\<open>this.cache[uri]\<close>: with
  no promise under the uri, it starts the body and stores its promise. It asks nothing
  of the outside world.
\<close>

definition Read_call :: "DataStore \<Rightarrow> ReadThroughDataSource \<Rightarrow> string \<Rightarrow> ReadThroughDataSource" where
  "Read_call st v u =
     (case cache v u of
        Some p \<Rightarrow> v
      | None \<Rightarrow> v\<lparr>cache := (cache v)(u \<mapsto> Pending (Read st u))\<rparr>)"

text \<open>
  \<open>Read_body\<close> is the rest of the body of a pending promise, run when the event loop
  resumes it, in the store and the outside world of that time: the uri is enumerated and
  the probed handle returned, or else the text is fetched, the token replaced, and a text
  that is not empty is written as an input file; the promise is settled with the outcome.
  A promise that is not pending has no body left.
\<close>

definition Read_body ::
  "External \<Rightarrow> DataStore \<Rightarrow> ReadThroughDataSource \<Rightarrow> string
     \<Rightarrow> extcall list \<times> ReadThroughDataSource \<times> DataStore"
where
  "Read_body ext st v u =
     (case cache v u of
        Some (Pending (Inr existingData)) \<Rightarrow>
          ([], v\<lparr>uris := uris v @ [u], cache := (cache v)(u \<mapsto> Settled (Inr (Some existingData)))\<rparr>, st)
      | Some (Pending (Inl e)) \<Rightarrow>
          (let (calls, fetched) = fetch ext u in
           case populate ext u fetched of
             None \<Rightarrow> (calls, v\<lparr>cache := (cache v)(u \<mapsto> Settled (Inr None))\<rparr>, st)
           | Some d \<Rightarrow>
               if d = [] then (calls, v\<lparr>cache := (cache v)(u \<mapsto> Settled (Inr None))\<rparr>, st)
               else
                 (case WriteData st u d ''input-file'' [u] None of
                    (Inl e', st') \<Rightarrow> (calls, v\<lparr>cache := (cache v)(u \<mapsto> Settled (Inl e'))\<rparr>, st')
                  | (Inr readHandle, st') \<Rightarrow>
                      (calls,
                       v\<lparr>uris := uris v @ [u], cache := (cache v)(u \<mapsto> Settled (Inr (Some readHandle)))\<rparr>,
                       st')))
      | _ \<Rightarrow> ([], v, st))"

text \<open>
  \<open>ReadThrough_Read\<close> is \<^verbatim>\<open>await view.Read(uri)\<close> with nothing else running in between:
  the call, the body if the promise is pending, and the outcome of the promise. After the
  call and the body the promise is settled, so the last case is never taken.
\<close>

definition ReadThrough_Read ::
  "External \<Rightarrow> DataStore \<Rightarrow> ReadThroughDataSource \<Rightarrow> string
     \<Rightarrow> (error + DataHandle option) \<times> extcall list \<times> ReadThroughDataSource \<times> DataStore"
where
  "ReadThrough_Read ext st v u =
     (let (calls, v', st') = Read_body ext st (Read_call st v u) u in
      case cache v' u of
        Some (Settled outcome) \<Rightarrow> (outcome, calls, v', st')
      | _ \<Rightarrow> (Inl TypeError, calls, v', st'))"

definition Enum :: "ReadThroughDataSource \<Rightarrow> string list" where
  "Enum v = uris v"

section \<open>Blame across hops and the flattened table\<close>

subsection \<open>Blame trees\<close>

text \<open>
  Modelled from the spec: \<^verbatim>\<open>BlameTree\<close> (imported from \<^verbatim>\<open>../source-map/blaming\<close>) is not
  among the sources. The spec has a node carry a source key, a line, a column and a name,
  with the positions one hop closer to the origin as children; \<open>blame\<close> "builds a node
  for (key, position)" and "for each result of resolveAtLine against the key's own
  per-line mapping index, recursively computes a child tree" rooted at the result, a
  position that resolves to nothing being terminal. The key is read with the
  non-suspending read, which fails on a key that the store does not hold. The spec
  imposes no limit on the hops and leaves a table that leads back to its own artifact
  open: the recursion runs on fuel, and \<open>None\<close> is a blame that has not returned
  within the fuel. A view is read at its value (\<open>fst\<close> of the access): the slots that
  the accesses fill on the way hold those same values (lemmas \<open>sourceMap_Value_stable\<close>
  and \<open>sourceMapEachMappingByLine_Value_stable\<close>).
\<close>

datatype BlameTree = BlameTree (node: MappedPosition) (blaming: "BlameTree list")

text \<open>
  The per-line view of the artifact under a source key; a source that is \<^verbatim>\<open>null\<close> is
  looked up as the key \<^verbatim>\<open>null\<close>, which no store holds.
\<close>

definition ownIndex :: "DataStore \<Rightarrow> string option \<Rightarrow> error + MappingItem list list" where
  "ownIndex st src =
     (case src of
        None \<Rightarrow> Inl (DoesNotExist ''null'')
      | Some k \<Rightarrow>
          (case ReadStrictSync st k of
             Inl e \<Rightarrow> Inl e
           | Inr h \<Rightarrow> fst (sourceMapEachMappingByLine_Value st h)))"

text \<open>
  \<open>Blame_at\<close> is \<^verbatim>\<open>DataHandle.Blame\<close> asked with a node of a tree; a line that is
  \<^verbatim>\<open>null\<close> is no index of the view.
\<close>

definition Blame_at :: "MappingItem list list \<Rightarrow> MappedPosition \<Rightarrow> MappedPosition list" where
  "Blame_at byLine position =
     (case line position of
        None \<Rightarrow> []
      | Some l \<Rightarrow> Blame byLine \<lparr>Position.line = l, Position.column = column position\<rparr>)"

text \<open>
  The children of a node, from left to right: the first child that does not return or
  that throws ends the whole.
\<close>

fun collect :: "(error + 'a) option list \<Rightarrow> (error + 'a list) option" where
  "collect [] = Some (Inr [])"
| "collect (None # rs) = None"
| "collect (Some (Inl e) # rs) = Some (Inl e)"
| "collect (Some (Inr x) # rs) =
     (case collect rs of
        None \<Rightarrow> None
      | Some (Inl e) \<Rightarrow> Some (Inl e)
      | Some (Inr xs) \<Rightarrow> Some (Inr (x # xs)))"

fun BlameTree_Create :: "nat \<Rightarrow> DataStore \<Rightarrow> MappedPosition \<Rightarrow> (error + BlameTree) option" where
  "BlameTree_Create 0 st position = None"
| "BlameTree_Create (Suc n) st position =
     (case ownIndex st (MappedPosition.source position) of
        Inl e \<Rightarrow> Some (Inl e)
      | Inr byLine \<Rightarrow>
          (case collect (map (BlameTree_Create n st) (Blame_at byLine position)) of
             None \<Rightarrow> None
           | Some (Inl e) \<Rightarrow> Some (Inl e)
           | Some (Inr children) \<Rightarrow> Some (Inr (BlameTree position children))))"

text \<open>
  Modelled from the spec: \<open>leaves\<close> "flattens the tree into all terminal nodes, in
  depth-first, left-to-right order over children".
\<close>

fun BlameLeafs :: "BlameTree \<Rightarrow> MappedPosition list" where
  "BlameLeafs (BlameTree n ts) = (if ts = [] then [n] else concat (map BlameLeafs ts))"

subsection \<open>The blame of the store\<close>

text \<open>
  \<^verbatim>\<open>DataStore.Blame\<close> for a position given by line and column (what
  \<^verbatim>\<open>CreateInputSourceMapFor\<close> asks with; \<^verbatim>\<open>CompilePosition\<close>, which is not among the
  sources, has then nothing to resolve). The root is named after the JSON text of the
  position.
\<close>

definition toString_int :: "int \<Rightarrow> string" where
  "toString_int i = (if i < 0 then CHR ''-'' # toString_nat (nat (- i)) else toString_nat (nat i))"

definition blameRoot_name :: "Position \<Rightarrow> string" where
  "blameRoot_name position =
     ''blameRoot ({\"column\":'' @ toString_int (Position.column position)
       @ '',\"line\":'' @ toString_int (Position.line position) @ ''})''"

definition DataStore_Blame ::
  "nat \<Rightarrow> DataStore \<Rightarrow> string \<Rightarrow> Position \<Rightarrow> (error + BlameTree) option"
where
  "DataStore_Blame n st absoluteUri position =
     (case ReadStrictSync st absoluteUri of
        Inl e \<Rightarrow> Some (Inl e)
      | Inr d \<Rightarrow>
          BlameTree_Create n st
            \<lparr>MappedPosition.source = Some absoluteUri, line = Some (Position.line position),
             column = Position.column position,
             MappedPosition.name = Some (blameRoot_name position)\<rparr>)"

subsection \<open>The flattened table\<close>

text \<open>
  A \<^verbatim>\<open>Mapping\<close> (of \<^verbatim>\<open>../source-map/source-map\<close>) as \<^verbatim>\<open>CreateInputSourceMapFor\<close> builds
  it: a name, a source, and the generated and the original position.
\<close>

record Mapping =
  name :: "string option"
  source :: string
  generated :: MappedPosition
  original :: MappedPosition

text \<open>\<^verbatim>\<open>this.ReadStrictSync(inputPosition.source).Description\<close>, the friendly name.\<close>

definition friendlyName :: "DataStore \<Rightarrow> string option \<Rightarrow> error + string" where
  "friendlyName st src =
     (case src of
        None \<Rightarrow> Inl (DoesNotExist ''null'')
      | Some k \<Rightarrow>
          (case ReadStrictSync st k of
             Inl e \<Rightarrow> Inl e
           | Inr h \<Rightarrow> Description h))"

text \<open>The inner loop, over the leaves of one tree, and the outer loop, over the targets.\<close>

fun pushLeafs ::
  "DataStore \<Rightarrow> MappedPosition \<Rightarrow> MappedPosition list \<Rightarrow> Mapping list \<Rightarrow> error + Mapping list"
where
  "pushLeafs st root [] mappings' = Inr mappings'"
| "pushLeafs st root (inputPosition # rest) mappings' =
     (case friendlyName st (MappedPosition.source inputPosition) of
        Inl e \<Rightarrow> Inl e
      | Inr friendly \<Rightarrow>
          pushLeafs st root rest
            (mappings' @ [\<lparr>name = MappedPosition.name inputPosition, source = friendly,
                           generated = root, original = inputPosition\<rparr>]))"

fun collectBlame ::
  "nat \<Rightarrow> DataStore \<Rightarrow> string \<Rightarrow> Position list \<Rightarrow> Mapping list \<Rightarrow> (error + Mapping list) option"
where
  "collectBlame n st absoluteUri [] mappings' = Some (Inr mappings')"
| "collectBlame n st absoluteUri (targetPosition # rest) mappings' =
     (case DataStore_Blame n st absoluteUri targetPosition of
        None \<Rightarrow> None
      | Some (Inl e) \<Rightarrow> Some (Inl e)
      | Some (Inr blameTree) \<Rightarrow>
          (case pushLeafs st (node blameTree) (BlameLeafs blameTree) mappings' of
             Inl e \<Rightarrow> Some (Inl e)
           | Inr mappings'' \<Rightarrow> collectBlame n st absoluteUri rest mappings''))"

text \<open>
  Modelled from the spec: \<^verbatim>\<open>Compile\<close> (of \<^verbatim>\<open>../source-map/source-map\<close>) is not among the
  sources. The spec has it build "an output mapping table from an explicit list of"
  correspondences between a generated and an original position: one entry for each, in
  their order, in a map whose file is the one the generator was made for.
\<close>

definition compiledItem :: "Mapping \<Rightarrow> MappingItem" where
  "compiledItem m =
     \<lparr>MappingItem.source = Some (source m),
      generatedLine = (case line (generated m) of None \<Rightarrow> 0 | Some l \<Rightarrow> nat l),
      generatedColumn = nat (column (generated m)),
      originalLine = line (original m),
      originalColumn = Some (column (original m)),
      MappingItem.name = name m\<rparr>"

definition Compile :: "Mapping list \<Rightarrow> string \<Rightarrow> RawSourceMap" where
  "Compile mappings' file'' =
     \<lparr>file' = file'', sources = remdups (map source mappings'), mappings = map compiledItem mappings'\<rparr>"

definition CreateInputSourceMapFor :: "nat \<Rightarrow> DataStore \<Rightarrow> string \<Rightarrow> (error + RawSourceMap) option" where
  "CreateInputSourceMapFor n st absoluteUri =
     (case ReadStrictSync st absoluteUri of
        Inl e \<Rightarrow> Some (Inl e)
      | Inr d \<Rightarrow>
          (case fst (sourceMap_Value st d) of
             Inl e \<Rightarrow> Some (Inl e)
           | Inr sm \<Rightarrow>
               let targetPositions =
                     map (\<lambda>m. \<lparr>Position.line = int (generatedLine m),
                               Position.column = int (generatedColumn m)\<rparr>) (mappings sm)
               in (case collectBlame n st absoluteUri targetPositions [] of
                     None \<Rightarrow> None
                   | Some (Inl e) \<Rightarrow> Some (Inl e)
                   | Some (Inr mappings') \<Rightarrow> Some (Inr (Compile mappings' absoluteUri)))))"

text \<open>
  \<^verbatim>\<open>handle.metadata.inputSourceMap.Value\<close>: the table is computed at the first access,
  for the key the record was written under, and kept.
\<close>

definition inputSourceMap_Value ::
  "nat \<Rightarrow> DataStore \<Rightarrow> DataHandle \<Rightarrow> (error + RawSourceMap) option \<times> DataStore"
where
  "inputSourceMap_Value n st h =
     (case metadata (objects st ! read h) of
        None \<Rightarrow> (Some (Inl TypeError), st)
      | Some md \<Rightarrow>
          (case inputSourceMap md of
             Some v \<Rightarrow> (Some (Inr v), st)
           | None \<Rightarrow>
               (case CreateInputSourceMapFor n st (uri md) of
                  None \<Rightarrow> (None, st)
                | Some (Inl e) \<Rightarrow> (Some (Inl e), st)
                | Some (Inr v) \<Rightarrow>
                    (Some (Inr v), update_metadata st (read h) (\<lambda>m. m\<lparr>inputSourceMap := Some v\<rparr>)))))"

subsection \<open>The flattened table, in the words of the spec\<close>

text \<open>
  For an entry of the own mapping table, one flattened entry for each leaf of the blame
  of the generated position of the entry: the friendly description of the source of the
  leaf, the generated position of the entry, the position of the leaf and its name.
\<close>

definition descriptionOf :: "string option \<Rightarrow> string" where
  "descriptionOf src =
     (case src of
        None \<Rightarrow> []
      | Some k \<Rightarrow> (case Description \<lparr>key = k, read = 0\<rparr> of Inl e \<Rightarrow> [] | Inr description \<Rightarrow> description))"

definition flattenedEntry :: "MappingItem \<Rightarrow> MappedPosition \<Rightarrow> MappingItem" where
  "flattenedEntry e leaf =
     \<lparr>MappingItem.source = Some (descriptionOf (MappedPosition.source leaf)),
      generatedLine = generatedLine e, generatedColumn = generatedColumn e,
      originalLine = line leaf, originalColumn = Some (column leaf),
      MappingItem.name = MappedPosition.name leaf\<rparr>"

definition blameLeaves :: "nat \<Rightarrow> DataStore \<Rightarrow> string \<Rightarrow> MappingItem \<Rightarrow> MappedPosition list" where
  "blameLeaves n st k e =
     (case DataStore_Blame n st k
             \<lparr>Position.line = int (generatedLine e), Position.column = int (generatedColumn e)\<rparr> of
        Some (Inr t) \<Rightarrow> BlameLeafs t
      | _ \<Rightarrow> [])"

definition flatten :: "nat \<Rightarrow> DataStore \<Rightarrow> string \<Rightarrow> MappingItem list \<Rightarrow> MappingItem list" where
  "flatten n st k table = concat (map (\<lambda>e. map (flattenedEntry e) (blameLeaves n st k e)) table)"

text \<open>
  A store in which blame ends: the sources that the entries of an artifact name rank
  below the artifact.
\<close>

definition hopsEnd :: "DataStore \<Rightarrow> (string option \<Rightarrow> nat) \<Rightarrow> bool" where
  "hopsEnd st rank \<longleftrightarrow>
     (\<forall>k byLine m. ownIndex st (Some k) = Inr byLine \<and> m \<in> set (concat byLine)
        \<longrightarrow> rank (MappingItem.source m) < rank (Some k))"

section \<open>Auxiliary notions of the proofs\<close>

text \<open>Reading a decimal numeral back, to tell the keys of different counters apart.\<close>

definition digitValue :: "char \<Rightarrow> nat" where
  "digitValue c = of_char c - 48"

definition parseNat :: "string \<Rightarrow> nat" where
  "parseNat s = foldl (\<lambda>a c. 10 * a + digitValue c) 0 s"

text \<open>The mapping that the inner loop pushes for a leaf.\<close>

definition leafMapping :: "MappedPosition \<Rightarrow> MappedPosition \<Rightarrow> Mapping" where
  "leafMapping root leaf =
     \<lparr>name = MappedPosition.name leaf, source = descriptionOf (MappedPosition.source leaf),
      generated = root, original = leaf\<rparr>"

text \<open>
  The invariant of the dictionary: every key was made by \<^verbatim>\<open>createUri\<close> from a counter
  value that is used up, and is bound to an object of the table. It holds of the new
  store, and \<^verbatim>\<open>WriteData\<close> and the sink keep it.
\<close>

definition store_inv :: "DataStore \<Rightarrow> bool" where
  "store_inv st \<longleftrightarrow>
     (\<forall>k r. store st k = Some r \<longrightarrow>
        r < length (objects st) \<and>
        (\<exists>n description. n < uid st \<and> k = fst (createUri (st\<lparr>uid := n\<rparr>) description)))"

section \<open>A store with one artifact\<close>

text \<open>
  The store after \<^verbatim>\<open>WriteData("a", "foo", "text", ["x"])\<close> on a new store, and the
  handle of that artifact: the concrete inputs of the examples below.
\<close>

definition example_store :: DataStore where
  "example_store = snd (WriteData new_DataStore ''a'' ''foo'' ''text'' [''x''] None)"

definition example_handle :: DataHandle where
  "example_handle = \<lparr>key = ''mem://0?a'', read = 0\<rparr>"

text \<open>The same store once cancellation has been requested.\<close>

definition cancelled_store :: DataStore where
  "cancelled_store = example_store\<lparr>isCancellationRequested := True\<rparr>"

text \<open>
  A mapping entry with an original, and two factories of source maps for an artifact
  derived from \<^verbatim>\<open>mem://0?a\<close>: one that also names a key which does not exist, one that
  names existing keys only.
\<close>

definition entry :: "string \<Rightarrow> nat \<Rightarrow> nat \<Rightarrow> int \<Rightarrow> int \<Rightarrow> MappingItem" where
  "entry src gl gc ol oc =
     \<lparr>MappingItem.source = Some src, generatedLine = gl, generatedColumn = gc,
      originalLine = Some ol, originalColumn = Some oc, MappingItem.name = None\<rparr>"

definition dangling_factory :: "DataHandle \<Rightarrow> RawSourceMap" where
  "dangling_factory h = \<lparr>file' = key h, sources = [''mem://0?a'', ''mem://7?gone''], mappings = []\<rparr>"

definition sound_factory :: "DataHandle \<Rightarrow> RawSourceMap" where
  "sound_factory h = \<lparr>file' = key h, sources = [''mem://0?a''],
      mappings = [entry ''mem://0?a'' 0 5 0 0]\<rparr>"

text \<open>
  An external uri, and four states of the outside world for it: the resource cannot be
  read; it holds a text with the token; it holds the empty text; its parent location, as
  \<^verbatim>\<open>ParentFolderUri\<close> gives it, holds the replacement pattern \<^verbatim>\<open>$&\<close>.
\<close>

definition example_uri :: string where
  "example_uri = ''file:///d/r''"

definition absent :: External where
  "absent = \<lparr>ReadFile = (\<lambda>u. Inl ExternalError), ReadUri = (\<lambda>u. Inl ExternalError),
             ParentFolderUri = (\<lambda>u. Some ''file:///d'')\<rparr>"

definition present :: External where
  "present = \<lparr>ReadFile = (\<lambda>u. Inr ''$(this-folder)/x''), ReadUri = (\<lambda>u. Inl ExternalError),
              ParentFolderUri = (\<lambda>u. Some ''file:///d'')\<rparr>"

definition empty_text :: External where
  "empty_text = \<lparr>ReadFile = (\<lambda>u. Inr []), ReadUri = (\<lambda>u. Inr []),
                 ParentFolderUri = (\<lambda>u. Some ''file:///d'')\<rparr>"

definition dollar_parent :: External where
  "dollar_parent = \<lparr>ReadFile = (\<lambda>u. Inr ''$(this-folder)/x''), ReadUri = (\<lambda>u. Inl ExternalError),
                 ParentFolderUri = (\<lambda>u. Some ''file:///d$&'')\<rparr>"

text \<open>
  The view and the store after a first read of the example uri through a new view, while
  the resource holds the text with the token; and the same after a first read on a store
  whose cancellation has been requested, which the write rejects.
\<close>

definition fetched_view :: ReadThroughDataSource where
  "fetched_view = fst (snd (snd (ReadThrough_Read present new_DataStore new_ReadThroughDataSource example_uri)))"

definition fetched_store :: DataStore where
  "fetched_store = snd (snd (snd (ReadThrough_Read present new_DataStore new_ReadThroughDataSource example_uri)))"

definition rejected_view :: ReadThroughDataSource where
  "rejected_view = fst (snd (snd (ReadThrough_Read present (new_DataStore\<lparr>isCancellationRequested := True\<rparr>)
       new_ReadThroughDataSource example_uri)))"

definition rejected_store :: DataStore where
  "rejected_store = snd (snd (snd (ReadThrough_Read present (new_DataStore\<lparr>isCancellationRequested := True\<rparr>)
       new_ReadThroughDataSource example_uri)))"

text \<open>
  A chain of three artifacts: \<^verbatim>\<open>mem://1?b\<close> is derived from \<^verbatim>\<open>mem://0?a\<close> (its entry
  maps (0,5) to (0,0) there), and \<^verbatim>\<open>mem://2?c\<close> from \<^verbatim>\<open>mem://1?b\<close> (its entry maps (0,2)
  to (0,7) there); a rank under which each names sources below itself; the leaf that the
  blame of (0,2) in \<^verbatim>\<open>mem://2?c\<close> ends in; and the flattened table of \<^verbatim>\<open>mem://2?c\<close>.
\<close>

definition hop_factory :: "DataHandle \<Rightarrow> RawSourceMap" where
  "hop_factory h = \<lparr>file' = key h, sources = [''mem://1?b''],
      mappings = [entry ''mem://1?b'' 0 2 0 7]\<rparr>"

definition chain_store :: DataStore where
  "chain_store =
     snd (WriteData (snd (WriteData example_store ''b'' ''bar'' ''text'' [''y''] (Some sound_factory)))
            ''c'' ''baz'' ''text'' [''z''] (Some hop_factory))"

definition chain_rank :: "string option \<Rightarrow> nat" where
  "chain_rank s = (if s = Some ''mem://2?c'' then 2 else if s = Some ''mem://1?b'' then 1 else 0)"

definition chain_leaf :: MappedPosition where
  "chain_leaf = \<lparr>MappedPosition.source = Some ''mem://0?a'', line = Some 0, column = 2,
                  MappedPosition.name = None\<rparr>"

definition chain_flat :: RawSourceMap where
  "chain_flat =
     \<lparr>file' = ''mem://2?c'', sources = [''a''],
      mappings = [\<lparr>MappingItem.source = Some ''a'', generatedLine = 0, generatedColumn = 2,
                   originalLine = Some 0, originalColumn = Some 2, MappingItem.name = None\<rparr>]\<rparr>"

section \<open>Keys\<close>

lemma digit_in: "n < 10 \<Longrightarrow> digit n \<in> set ''0123456789''"
  unfolding digit_def by (rule nth_mem) simp

lemma toString_nat_digits: "set (toString_nat n) \<subseteq> set ''0123456789''"
proof (induction n rule: toString_nat.induct)
  case (1 n)
  show ?case
  proof (cases "n < 10")
    case True
    then show ?thesis using digit_in[of n] by (subst toString_nat.simps) simp
  next
    case False
    have "n mod 10 < 10" by simp
    then have "digit (n mod 10) \<in> set ''0123456789''" by (rule digit_in)
    with False 1 show ?thesis by (subst toString_nat.simps) simp
  qed
qed

lemma digitValue_digit: "n < 10 \<Longrightarrow> digitValue (digit n) = n"
proof -
  assume "n < 10"
  then have "n \<in> {0,1,2,3,4,5,6,7,8,9}" by auto
  then show ?thesis by (auto simp: digitValue_def digit_def)
qed

lemma parseNat_toString: "parseNat (toString_nat n) = n"
proof (induction n rule: toString_nat.induct)
  case (1 n)
  show ?case
  proof (cases "n < 10")
    case True
    then show ?thesis by (subst toString_nat.simps) (simp add: parseNat_def digitValue_digit)
  next
    case False
    with 1 have "parseNat (toString_nat (n div 10)) = n div 10" by simp
    with False show ?thesis
      by (subst toString_nat.simps) (simp add: parseNat_def digitValue_digit)
  qed
qed

lemma toString_nat_inj: "toString_nat n = toString_nat m \<Longrightarrow> n = m"
  by (metis parseNat_toString)

lemma hasScheme_counter: "\<not> hasScheme (toString_nat n @ CHR ''?'' # rest)"
proof -
  have d: "\<forall>c \<in> set (toString_nat n). c \<notin> set ''/?#''" using toString_nat_digits[of n] by auto
  have "takeWhile (\<lambda>c. c \<notin> set ''/?#'') (toString_nat n @ CHR ''?'' # rest) = toString_nat n"
    using d by (simp add: takeWhile_append2)
  moreover have "CHR '':'' \<notin> set (toString_nat n)" using toString_nat_digits[of n] by auto
  ultimately show ?thesis by (simp add: hasScheme_def)
qed

lemma hasScheme_base: "hasScheme (BaseUri @ x)"
  by (simp add: hasScheme_def BaseUri_def)

lemma ResolveUri_counter:
  "ResolveUri BaseUri (toString_nat n @ CHR ''?'' # e) = BaseUri @ toString_nat n @ CHR ''?'' # e"
  using hasScheme_counter[of n e] by (simp add: ResolveUri_def)

lemma ResolveUri_base: "ResolveUri BaseUri (BaseUri @ x) = BaseUri @ x"
  using hasScheme_base[of x] by (simp add: ResolveUri_def)

lemma createUri_eq:
  "createUri st description =
     (BaseUri @ toString_nat (uid st) @ CHR ''?'' # encodeURIComponent description, st\<lparr>uid := uid st + 1\<rparr>)"
  by (simp add: createUri_def ResolveUri_counter)

lemma takeWhile_counter:
  "takeWhile (\<lambda>c. c \<noteq> CHR ''?'') (toString_nat n @ CHR ''?'' # e) = toString_nat n"
proof -
  have "\<forall>c \<in> set (toString_nat n). c \<noteq> CHR ''?''" using toString_nat_digits[of n] by auto
  then show ?thesis by (simp add: takeWhile_append2)
qed

lemma key_counter_inj:
  assumes "BaseUri @ toString_nat n @ CHR ''?'' # e = BaseUri @ toString_nat m @ CHR ''?'' # e'"
  shows "n = m"
proof -
  from assms have "toString_nat n @ CHR ''?'' # e = toString_nat m @ CHR ''?'' # e'" by simp
  then have "takeWhile (\<lambda>c. c \<noteq> CHR ''?'') (toString_nat n @ CHR ''?'' # e)
           = takeWhile (\<lambda>c. c \<noteq> CHR ''?'') (toString_nat m @ CHR ''?'' # e')" by simp
  then have "toString_nat n = toString_nat m" by (simp only: takeWhile_counter)
  then show ?thesis by (rule toString_nat_inj)
qed

lemma createUri_fresh:
  assumes "store_inv st"
  shows "store st (fst (createUri st description)) = None"
proof (rule ccontr)
  assume "store st (fst (createUri st description)) \<noteq> None"
  then obtain r where r: "store st (fst (createUri st description)) = Some r" by auto
  with assms obtain n d where n: "n < uid st"
    and k: "fst (createUri st description) = fst (createUri (st\<lparr>uid := n\<rparr>) d)"
    unfolding store_inv_def by blast
  from k have "uid st = n" by (simp add: createUri_eq del: append_eq_append_conv same_append_eq) (rule key_counter_inj)
  with n show False by simp
qed

lemma store_inv_new: "store_inv new_DataStore"
  by (simp add: store_inv_def new_DataStore_def)

lemma Read_key:
  "store st (BaseUri @ x) = Some r \<Longrightarrow> Read st (BaseUri @ x) = Inr \<lparr>key = BaseUri @ x, read = r\<rparr>"
  by (simp add: Read_def ResolveUri_base)

lemma WriteData_cancelled:
  "isCancellationRequested st \<Longrightarrow>
   WriteData st description d artifact ident f = (Inl Cancelled, st\<lparr>uid := uid st + 1\<rparr>)"
  by (simp add: WriteData_def createUri_eq WriteDataInternal_def ThrowIfCancelled_def)

lemma WriteData_ok:
  assumes "\<not> isCancellationRequested st" and "store_inv st"
  shows "WriteData st description d artifact ident f =
     (let K = fst (createUri st description); h = \<lparr>key = K, read = length (objects st)\<rparr> in
      (Inr h,
       st\<lparr>uid := uid st + 1,
          store := (store st)(K \<mapsto> length (objects st)),
          objects := objects st @ [\<lparr>data = d, metadata = Some (new_Metadata artifact f K h), identity = ident\<rparr>]\<rparr>))"
proof -
  have fresh: "store st (BaseUri @ toString_nat (uid st) @ CHR ''?'' # encodeURIComponent description) = None"
    using createUri_fresh[OF assms(2), of description] by (simp add: createUri_eq)
  show ?thesis
    using assms(1) fresh
    by (simp add: WriteData_def createUri_eq WriteDataInternal_def ThrowIfCancelled_def Read_def
        ResolveUri_base Let_def)
qed

lemma sink_forward_eq:
  assumes "store st (key A) = Some r"
  shows "sink_forward st description A =
     (let K = fst (createUri st description) in
      (Inr \<lparr>key = K, read = r\<rparr>, st\<lparr>uid := uid st + 1, store := (store st)(K \<mapsto> r)\<rparr>))"
  using assms
  by (simp add: sink_forward_def createUri_eq Read_def ResolveUri_base Let_def)

lemma hexValue_hexDigit: "k < 16 \<Longrightarrow> hexValue (hexDigit k) = Some k"
proof -
  assume "k < 16"
  then have "k = 0 \<or> k = 1 \<or> k = 2 \<or> k = 3 \<or> k = 4 \<or> k = 5 \<or> k = 6 \<or> k = 7 \<or> k = 8
      \<or> k = 9 \<or> k = 10 \<or> k = 11 \<or> k = 12 \<or> k = 13 \<or> k = 14 \<or> k = 15" by arith
  then show ?thesis by (auto simp: hexValue_def hexDigit_def)
qed

lemma hexDigit_in: "k < 16 \<Longrightarrow> hexDigit k \<in> set ''0123456789ABCDEF''"
  unfolding hexDigit_def by (rule nth_mem) simp

lemma percent_reserved: "\<not> uriUnreserved CHR ''%''"
  by (simp add: uriUnreserved_def)

lemma question_reserved: "\<not> uriUnreserved CHR ''?''"
  by (simp add: uriUnreserved_def)

lemma of_char_div16: "(of_char c :: nat) div 16 < 16"
proof -
  have "(of_char c :: nat) < 16 * 16" by simp
  then show ?thesis by (rule less_mult_imp_div_less)
qed

lemma char_of_div_mod: "char_of (16 * ((of_char c :: nat) div 16) + of_char c mod 16) = c"
  by simp

lemma decode_encodeChar:
  "decodeURIComponent (encodeChar c @ s) =
     (case decodeURIComponent s of Inl e \<Rightarrow> Inl e | Inr t \<Rightarrow> Inr (c # t))"
proof (cases "uriUnreserved c")
  case True
  then have "c \<noteq> CHR ''%''" using percent_reserved by auto
  with True show ?thesis by (simp add: encodeChar_def)
next
  case False
  have a: "hexValue (hexDigit (of_char c div 16)) = Some (of_char c div 16)"
    by (rule hexValue_hexDigit) (rule of_char_div16)
  have b: "hexValue (hexDigit (of_char c mod 16)) = Some (of_char c mod 16)"
    by (rule hexValue_hexDigit) simp
  from False show ?thesis
    by (simp add: encodeChar_def a b char_of_div_mod split: sum.splits)
qed

lemma decode_encode: "decodeURIComponent (encodeURIComponent d) = Inr d"
  by (induction d) (simp_all add: decode_encodeChar)

lemma encodeChar_no_question: "CHR ''?'' \<notin> set (encodeChar c)"
proof (cases "uriUnreserved c")
  case True
  then have "c \<noteq> CHR ''?''" using question_reserved by auto
  with True show ?thesis by (simp add: encodeChar_def)
next
  case False
  have "hexDigit (of_char c div 16) \<in> set ''0123456789ABCDEF''"
    by (rule hexDigit_in) (rule of_char_div16)
  moreover have "hexDigit (of_char c mod 16) \<in> set ''0123456789ABCDEF''"
    by (rule hexDigit_in) simp
  ultimately show ?thesis using False by (auto simp: encodeChar_def)
qed

lemma encode_no_question: "CHR ''?'' \<notin> set (encodeURIComponent d)"
  by (induction d) (simp_all add: encodeChar_no_question)

lemma split_nonempty: "split sep s \<noteq> []"
  by (induction s) (auto split: list.splits)

lemma split_no_sep: "sep \<notin> set s \<Longrightarrow> split sep s = [s]"
  by (induction s) auto

lemma tl_split_append: "tl (split sep (xs @ sep # ys)) \<noteq> []"
proof (induction xs)
  case Nil
  then show ?case by (simp add: split_nonempty)
next
  case (Cons x xs)
  then show ?case
    by (cases "split sep (xs @ sep # ys)") (auto simp: split_nonempty)
qed

lemma last_split_append: "last (split sep (xs @ sep # ys)) = last (split sep ys)"
proof (induction xs)
  case Nil
  then show ?case by (simp add: split_nonempty)
next
  case (Cons x xs)
  then show ?case
    using tl_split_append[of sep xs ys]
    by (cases "split sep (xs @ sep # ys)") (auto simp: split_nonempty)
qed

lemma last_segment:
  assumes "sep \<notin> set ys"
  shows "hd (rev (split sep (xs @ sep # ys))) = ys"
proof -
  have "hd (rev (split sep (xs @ sep # ys))) = last (split sep (xs @ sep # ys))"
    by (simp add: hd_rev split_nonempty)
  also have "\<dots> = last (split sep ys)" by (rule last_split_append)
  also have "\<dots> = ys" using assms by (simp add: split_no_sep)
  finally show ?thesis .
qed

lemma Description_createUri:
  "Description \<lparr>key = fst (createUri st description), read = r\<rparr> = Inr description"
proof -
  have "hd (rev (split CHR ''?'' ((BaseUri @ toString_nat (uid st)) @ CHR ''?'' # encodeURIComponent description)))
        = encodeURIComponent description"
    by (rule last_segment) (rule encode_no_question)
  then show ?thesis by (simp add: Description_def createUri_eq decode_encode)
qed

lemma WriteData_key:
  assumes "WriteData st description d artifact ident f = (Inr h, st')"
  shows "key h = fst (createUri st description)"
  using assms
  by (auto simp: WriteData_def createUri_eq WriteDataInternal_def ThrowIfCancelled_def Read_def
      ResolveUri_base Let_def split: if_splits sum.splits option.splits prod.splits)


section \<open>The invariant is kept\<close>

lemma store_inv_uid: "store_inv st \<Longrightarrow> store_inv (st\<lparr>uid := uid st + 1\<rparr>)"
  unfolding store_inv_def by (simp add: createUri_eq) (metis less_SucI)

lemma store_inv_cancel: "store_inv st \<Longrightarrow> store_inv (st\<lparr>isCancellationRequested := c\<rparr>)"
  unfolding store_inv_def by (simp add: createUri_eq)

lemma store_inv_WriteData:
  assumes "store_inv st"
  shows "store_inv (snd (WriteData st description d artifact ident f))"
proof (cases "isCancellationRequested st")
  case True
  then show ?thesis using store_inv_uid[OF assms] by (simp add: WriteData_cancelled)
next
  case False
  have "uid st < uid st + 1" by simp
  moreover have "BaseUri @ toString_nat (uid st) @ CHR ''?'' # encodeURIComponent description
               = BaseUri @ toString_nat (uid st) @ CHR ''?'' # encodeURIComponent description" ..
  ultimately have new: "\<exists>n d'. n < uid st + 1 \<and>
      BaseUri @ toString_nat (uid st) @ CHR ''?'' # encodeURIComponent description
      = BaseUri @ toString_nat n @ CHR ''?'' # encodeURIComponent d'" by blast
  have old: "\<And>k r. store st k = Some r \<Longrightarrow> r < Suc (length (objects st)) \<and>
      (\<exists>n d'. n < uid st + 1 \<and> k = BaseUri @ toString_nat n @ CHR ''?'' # encodeURIComponent d')"
    using assms unfolding store_inv_def by (simp add: createUri_eq) (metis less_SucI)
  show ?thesis
    using new old
    by (simp add: WriteData_ok[OF False assms] Let_def store_inv_def createUri_eq)
qed

lemma store_inv_forward:
  assumes "store_inv st"
  shows "store_inv (snd (sink_forward st description A))"
proof -
  have old: "\<And>k r. store st k = Some r \<Longrightarrow> r < length (objects st) \<and>
      (\<exists>n d'. n < uid st + 1 \<and> k = BaseUri @ toString_nat n @ CHR ''?'' # encodeURIComponent d')"
    using assms unfolding store_inv_def by (simp add: createUri_eq) (metis less_SucI)
  have "uid st < uid st + 1" by simp
  then have new: "\<exists>n d'. n < uid st + 1 \<and>
      BaseUri @ toString_nat (uid st) @ CHR ''?'' # encodeURIComponent description
      = BaseUri @ toString_nat n @ CHR ''?'' # encodeURIComponent d'" by blast
  show ?thesis
    using new old
    by (auto simp: sink_forward_def Let_def store_inv_def createUri_eq)
qed

text \<open>The frame of a write and of a forward: no other key is touched.\<close>

lemma WriteData_frame:
  assumes "store_inv st" and "store st K = Some r"
  shows "store (snd (WriteData st description d artifact ident f)) K = Some r
       \<and> objects (snd (WriteData st description d artifact ident f)) ! r = objects st ! r"
proof (cases "isCancellationRequested st")
  case True
  then show ?thesis using assms(2) by (simp add: WriteData_cancelled)
next
  case False
  have "store st (fst (createUri st description)) = None" using assms(1) by (rule createUri_fresh)
  with assms(2) have ne: "fst (createUri st description) \<noteq> K" by auto
  from assms have "r < length (objects st)" unfolding store_inv_def by blast
  with ne assms(2) show ?thesis
    by (simp add: WriteData_ok[OF False assms(1)] Let_def nth_append)
qed

lemma sink_forward_frame:
  assumes "store_inv st" and "store st K = Some r"
  shows "store (snd (sink_forward st description A)) K = Some r
       \<and> objects (snd (sink_forward st description A)) = objects st"
proof -
  have "store st (fst (createUri st description)) = None" using assms(1) by (rule createUri_fresh)
  with assms(2) have "fst (createUri st description) \<noteq> K" by auto
  then have ne: "BaseUri @ toString_nat (uid st) @ CHR ''?'' # encodeURIComponent description \<noteq> K"
    by (simp add: createUri_eq)
  with assms(2) show ?thesis
    by (simp add: sink_forward_def Let_def createUri_eq)
qed


section \<open>The example store\<close>

lemma example_key: "fst (createUri new_DataStore ''a'') = ''mem://0?a''"
  by (simp add: createUri_eq new_DataStore_def toString_nat.simps digit_def BaseUri_def
      encodeChar_def uriUnreserved_def)

lemma example_write:
  "WriteData new_DataStore ''a'' ''foo'' ''text'' [''x''] None =
     (Inr example_handle,
      \<lparr>isCancellationRequested = False, store = [''mem://0?a'' \<mapsto> 0], uid = 1,
       objects = [\<lparr>data = ''foo'',
                   metadata = Some (new_Metadata ''text'' None ''mem://0?a'' example_handle),
                   identity = [''x'']\<rparr>]\<rparr>)"
proof -
  have nc: "\<not> isCancellationRequested new_DataStore" by (simp add: new_DataStore_def)
  show ?thesis
    unfolding WriteData_ok[OF nc store_inv_new] Let_def example_key example_handle_def
    by (simp add: new_DataStore_def)
qed

lemma example_store_eq:
  "example_store =
     \<lparr>isCancellationRequested = False, store = [''mem://0?a'' \<mapsto> 0], uid = 1,
      objects = [\<lparr>data = ''foo'',
                  metadata = Some (new_Metadata ''text'' None ''mem://0?a'' example_handle),
                  identity = [''x'']\<rparr>]\<rparr>"
  by (simp add: example_store_def example_write)

lemma example_store_inv: "store_inv example_store"
  unfolding example_store_def by (rule store_inv_WriteData) (rule store_inv_new)

lemma example_store_key: "store example_store ''mem://0?a'' = Some 0"
  by (simp add: example_store_eq)


section \<open>Write-once\<close>

text \<open>
  Claim C1, as amended. A key that holds a record keeps it. A further
  \<^verbatim>\<open>WriteDataInternal\<close> to the key fails and leaves the store as it was: with the
  write conflict ("can only write ... once") when cancellation has not been requested,
  with \<open>Cancelled\<close> when it has, since the cancellation check comes first. Neither
  \<^verbatim>\<open>WriteData\<close> (which writes under a fresh key) nor a forward of the sink changes
  what the key is bound to or the record behind it. So a later read of the key meets the
  content, the tag and the identity of the first write.
\<close>

theorem write_once:
  assumes "store_inv st" and "store st K = Some r"
  shows "WriteDataInternal st K d md ident =
           (Inl (if isCancellationRequested st then Cancelled else WriteConflict K), st)
       \<and> store (snd (WriteData st description d' artifact ident' f)) K = Some r
       \<and> objects (snd (WriteData st description d' artifact ident' f)) ! r = objects st ! r
       \<and> store (snd (sink_forward st description A)) K = Some r
       \<and> objects (snd (sink_forward st description A)) ! r = objects st ! r"
proof -
  have "WriteDataInternal st K d md ident =
           (Inl (if isCancellationRequested st then Cancelled else WriteConflict K), st)"
    using assms(2) by (simp add: WriteDataInternal_def ThrowIfCancelled_def)
  then show ?thesis
    using WriteData_frame[OF assms, of description d' artifact ident' f]
      sink_forward_frame[OF assms, of description A] by simp
qed

text \<open>
  The statement of C1 at the example store: the second write to \<^verbatim>\<open>mem://0?a\<close> is a
  write conflict, and the content \<^verbatim>\<open>foo\<close> survives a write and a forward.
\<close>

theorem write_once_witness:
  "store_inv example_store \<and> store example_store ''mem://0?a'' = Some 0
   \<and> WriteDataInternal example_store ''mem://0?a'' ''bar'' None [''y'']
       = (Inl (WriteConflict ''mem://0?a''), example_store)
   \<and> store (snd (WriteData example_store ''b'' ''bar'' ''text'' [''y''] None)) ''mem://0?a'' = Some 0
   \<and> data (objects (snd (WriteData example_store ''b'' ''bar'' ''text'' [''y''] None)) ! 0) = ''foo''
   \<and> store (snd (sink_forward example_store ''b'' example_handle)) ''mem://0?a'' = Some 0
   \<and> data (objects (snd (sink_forward example_store ''b'' example_handle)) ! 0) = ''foo''"
proof -
  have nc: "\<not> isCancellationRequested example_store" by (simp add: example_store_eq)
  have d: "data (objects example_store ! 0) = ''foo''" by (simp add: example_store_eq)
  show ?thesis
    using write_once[OF example_store_inv example_store_key,
        of "''bar''" None "[''y'']" "''b''" "''bar''" "''text''" "[''y'']" None example_handle]
      nc d example_store_inv example_store_key
    by simp
qed

text \<open>
  Claim C1 as the spec words it has the second write fail with the write conflict. Once
  cancellation has been requested it fails with \<open>Cancelled\<close> instead.
\<close>

theorem write_once_cancelled_counterexample:
  "store (example_store\<lparr>isCancellationRequested := True\<rparr>) ''mem://0?a'' = Some 0
   \<and> fst (WriteDataInternal (example_store\<lparr>isCancellationRequested := True\<rparr>) ''mem://0?a'' ''bar'' None [''y''])
       = Inl Cancelled
   \<and> fst (WriteDataInternal (example_store\<lparr>isCancellationRequested := True\<rparr>) ''mem://0?a'' ''bar'' None [''y''])
       \<noteq> Inl (WriteConflict ''mem://0?a'')"
  by (simp add: example_store_eq WriteDataInternal_def ThrowIfCancelled_def)

section \<open>The description of a key\<close>

text \<open>
  Claim C9. The handle that \<^verbatim>\<open>WriteData\<close> returns for a description has that
  description: the key ends in \<^verbatim>\<open>?\<close> and the percent-encoded description, the
  encoding holds no \<^verbatim>\<open>?\<close>, so \<^verbatim>\<open>Description\<close> decodes exactly the encoding.
\<close>

theorem Description_roundtrip:
  assumes "WriteData st description d artifact ident f = (Inr h, st')"
  shows "Description h = Inr description"
proof -
  have "key h = fst (createUri st description)" using assms by (rule WriteData_key)
  then have "h = \<lparr>key = fst (createUri st description), read = read h\<rparr>" by simp
  then show ?thesis using Description_createUri[of st description "read h"] by simp
qed

lemma example_write_space:
  "fst (WriteData new_DataStore ''a b?'' ''foo'' ''text'' [''x''] None)
     = Inr \<lparr>key = ''mem://0?a%20b%3F'', read = 0\<rparr>"
proof -
  have nc: "\<not> isCancellationRequested new_DataStore" by (simp add: new_DataStore_def)
  show ?thesis
    unfolding WriteData_ok[OF nc store_inv_new] Let_def
    by (simp add: new_DataStore_def createUri_eq toString_nat.simps digit_def BaseUri_def
      encodeChar_def uriUnreserved_def hexDigit_def)
qed

text \<open>The statement of C9 at the description \<^verbatim>\<open>a b?\<close>, written to a new store.\<close>

theorem Description_roundtrip_witness:
  "fst (WriteData new_DataStore ''a b?'' ''foo'' ''text'' [''x''] None)
     = Inr \<lparr>key = ''mem://0?a%20b%3F'', read = 0\<rparr>
   \<and> Description \<lparr>key = ''mem://0?a%20b%3F'', read = 0\<rparr> = Inr ''a b?''"
proof -
  obtain st' where w: "WriteData new_DataStore ''a b?'' ''foo'' ''text'' [''x''] None
      = (Inr \<lparr>key = ''mem://0?a%20b%3F'', read = 0\<rparr>, st')"
    using example_write_space by (cases "WriteData new_DataStore ''a b?'' ''foo'' ''text'' [''x''] None") simp
  show ?thesis using Description_roundtrip[OF w] example_write_space by simp
qed


section \<open>Forwarding\<close>

text \<open>A view that has been computed is cached in the record, whatever handle asks next.\<close>

lemma sourceMap_Value_cached:
  assumes "sourceMap_Value st h = (Inr v, st2)" and "read h < length (objects st)" and "read h' = read h"
  shows "sourceMap_Value st2 h' = (Inr v, st2)"
  using assms
  by (auto simp: sourceMap_Value_def update_metadata_def split: option.splits sum.splits)

lemma sourceMap_Value_length:
  "sourceMap_Value st h = (res, st2) \<Longrightarrow> length (objects st2) = length (objects st)"
  by (auto simp: sourceMap_Value_def update_metadata_def split: option.splits sum.splits)

lemma sourceMapEachMappingByLine_Value_cached:
  assumes "sourceMapEachMappingByLine_Value st h = (Inr v, st2)"
    and "read h < length (objects st)" and "read h' = read h"
  shows "sourceMapEachMappingByLine_Value st2 h' = (Inr v, st2)"
proof (cases "metadata (objects st ! read h)")
  case None
  with assms show ?thesis by (simp add: sourceMapEachMappingByLine_Value_def)
next
  case (Some md)
  show ?thesis
  proof (cases "sourceMapEachMappingByLine md")
    case (Some v')
    with \<open>metadata (objects st ! read h) = Some md\<close> assms show ?thesis
      by (auto simp: sourceMapEachMappingByLine_Value_def)
  next
    case None
    obtain res st1 where sm: "sourceMap_Value st h = (res, st1)" by (cases "sourceMap_Value st h")
    have len: "length (objects st1) = length (objects st)" using sm by (rule sourceMap_Value_length)
    from None \<open>metadata (objects st ! read h) = Some md\<close> assms(1) sm
    obtain smv where res: "res = Inr smv" and v: "v = eachMapping_byLine (mappings smv)"
      and st2: "st2 = update_metadata st1 (read h) (\<lambda>m. m\<lparr>sourceMapEachMappingByLine := Some v\<rparr>)"
      by (auto simp: sourceMapEachMappingByLine_Value_def Let_def split: sum.splits)
    have "metadata (objects st1 ! read h) \<noteq> None"
      using sm res \<open>metadata (objects st ! read h) = Some md\<close> assms(2)
      by (auto simp: sourceMap_Value_def update_metadata_def split: option.splits sum.splits)
    then show ?thesis
      using st2 len assms(2,3)
      by (auto simp: sourceMapEachMappingByLine_Value_def update_metadata_def)
  qed
qed

lemma store_inv_key:
  assumes "store_inv st" and "store st k = Some r"
  shows "\<exists>x. k = BaseUri @ x"
  using assms unfolding store_inv_def by (fastforce simp: createUri_eq)

lemma Read_present:
  assumes "store_inv st" and "store st k = Some r"
  shows "Read st k = Inr \<lparr>key = k, read = r\<rparr>"
proof -
  from assms obtain x where "k = BaseUri @ x" using store_inv_key by blast
  with assms(2) show ?thesis using Read_key[of st x r] by simp
qed

text \<open>
  Claim C5. For a handle \<open>A\<close> whose key is bound in the store, the forward of the sink
  returns a handle \<open>B\<close> for a key that was free, bound to the very object of \<open>A\<close>:
  the object table is unchanged (nothing is copied), both keys read back, with the same
  content, identity and metadata, and a view computed through either handle is the cached
  value that the other handle gets, with no further change of the store.
\<close>

theorem forward_aliases:
  assumes "store_inv st" and "store st (key A) = Some (read A)"
  shows "\<exists>B st'. sink_forward st description A = (Inr B, st')
      \<and> store st (key B) = None
      \<and> read B = read A
      \<and> objects st' = objects st
      \<and> Read st' (key A) = Inr A \<and> Read st' (key B) = Inr B
      \<and> ReadData st' B = ReadData st' A
      \<and> identity_of st' B = identity_of st' A
      \<and> metadata_of st' B = metadata_of st' A
      \<and> (\<forall>v st2. sourceMap_Value st' A = (Inr v, st2) \<longrightarrow> sourceMap_Value st2 B = (Inr v, st2))
      \<and> (\<forall>v st2. sourceMap_Value st' B = (Inr v, st2) \<longrightarrow> sourceMap_Value st2 A = (Inr v, st2))
      \<and> (\<forall>v st2. sourceMapEachMappingByLine_Value st' A = (Inr v, st2)
            \<longrightarrow> sourceMapEachMappingByLine_Value st2 B = (Inr v, st2))
      \<and> (\<forall>v st2. sourceMapEachMappingByLine_Value st' B = (Inr v, st2)
            \<longrightarrow> sourceMapEachMappingByLine_Value st2 A = (Inr v, st2))"
proof -
  define K where "K = fst (createUri st description)"
  define B where "B = \<lparr>key = K, read = read A\<rparr>"
  define st' where "st' = st\<lparr>uid := uid st + 1, store := (store st)(K \<mapsto> read A)\<rparr>"
  have fwd: "sink_forward st description A = (Inr B, st')"
    using sink_forward_eq[OF assms(2), of description] by (simp add: Let_def K_def B_def st'_def)
  have fresh: "store st (key B) = None"
    using createUri_fresh[OF assms(1), of description] by (simp add: B_def K_def)
  have inv': "store_inv st'"
    using store_inv_forward[OF assms(1), of description A] fwd by simp
  have neq: "K \<noteq> key A" using fresh assms(2) by (auto simp: B_def)
  have sA: "store st' (key A) = Some (read A)" using assms(2) neq by (simp add: st'_def)
  have sB: "store st' (key B) = Some (read B)" by (simp add: st'_def B_def)
  have rA: "Read st' (key A) = Inr A" using Read_present[OF inv' sA] by simp
  have rB: "Read st' (key B) = Inr B" using Read_present[OF inv' sB] by simp
  have lt: "read A < length (objects st')"
    using assms unfolding store_inv_def by (auto simp: st'_def)
  have rd: "read B = read A" by (simp add: B_def)
  have obj: "objects st' = objects st" by (simp add: st'_def)
  have ltB: "read B < length (objects st')" using lt rd by simp
  have c1: "ReadData st' B = ReadData st' A" by (simp add: ReadData_def rd)
  have c2: "identity_of st' B = identity_of st' A" by (simp add: identity_of_def rd)
  have c3: "metadata_of st' B = metadata_of st' A" by (simp add: metadata_of_def rd)
  have v1: "\<forall>v st2. sourceMap_Value st' A = (Inr v, st2) \<longrightarrow> sourceMap_Value st2 B = (Inr v, st2)"
    using sourceMap_Value_cached[OF _ lt rd] by blast
  have v2: "\<forall>v st2. sourceMap_Value st' B = (Inr v, st2) \<longrightarrow> sourceMap_Value st2 A = (Inr v, st2)"
    using sourceMap_Value_cached[OF _ ltB rd[symmetric]] by blast
  have v3: "\<forall>v st2. sourceMapEachMappingByLine_Value st' A = (Inr v, st2)
            \<longrightarrow> sourceMapEachMappingByLine_Value st2 B = (Inr v, st2)"
    using sourceMapEachMappingByLine_Value_cached[OF _ lt rd] by blast
  have v4: "\<forall>v st2. sourceMapEachMappingByLine_Value st' B = (Inr v, st2)
            \<longrightarrow> sourceMapEachMappingByLine_Value st2 A = (Inr v, st2)"
    using sourceMapEachMappingByLine_Value_cached[OF _ ltB rd[symmetric]] by blast
  show ?thesis
    by (intro exI[of _ B] exI[of _ st'] conjI) (fact fwd fresh rd obj rA rB c1 c2 c3 v1 v2 v3 v4)+
qed

section \<open>Cancellation\<close>

lemma example_forward:
  "sink_forward (example_store\<lparr>isCancellationRequested := c\<rparr>) ''b'' example_handle =
     (Inr \<lparr>key = ''mem://1?b'', read = 0\<rparr>,
      example_store\<lparr>isCancellationRequested := c, uid := 2,
         store := [''mem://0?a'' \<mapsto> 0, ''mem://1?b'' \<mapsto> 0]\<rparr>)"
proof -
  have k: "store (example_store\<lparr>isCancellationRequested := c\<rparr>) (key example_handle) = Some 0"
    by (simp add: example_store_eq example_handle_def)
  have u: "fst (createUri (example_store\<lparr>isCancellationRequested := c\<rparr>) ''b'') = ''mem://1?b''"
    by (simp add: createUri_eq example_store_eq toString_nat.simps digit_def BaseUri_def
      encodeChar_def uriUnreserved_def)
  show ?thesis
    unfolding sink_forward_eq[OF k] Let_def u
    by (simp add: example_store_eq)
qed

text \<open>
  With cancellation requested, \<^verbatim>\<open>WriteData\<close> and the write of the sink fail with
  \<open>Cancelled\<close>, and neither the dictionary nor the object table changes (the counter
  has been advanced by \<^verbatim>\<open>createUri\<close> before the check).
\<close>

lemma WriteData_cancelled_store:
  assumes "isCancellationRequested st"
  shows "fst (WriteData st description d artifact ident f) = Inl Cancelled
       \<and> store (snd (WriteData st description d artifact ident f)) = store st
       \<and> objects (snd (WriteData st description d artifact ident f)) = objects st"
  using assms by (simp add: WriteData_cancelled)

lemma sink_write_cancelled_store:
  assumes "isCancellationRequested st"
  shows "fst (sink_write dflt st description d artifact ident f) = Inl Cancelled
       \<and> store (snd (sink_write dflt st description d artifact ident f)) = store st
       \<and> objects (snd (sink_write dflt st description d artifact ident f)) = objects st"
  using assms by (simp add: sink_write_def WriteData_cancelled)

text \<open>
  Claim C3 asks the same of the forward of the sink. The forward never calls
  \<^verbatim>\<open>ThrowIfCancelled\<close>: on the cancelled example store \<^verbatim>\<open>Forward("b", A)\<close> returns
  a handle and binds the key \<^verbatim>\<open>mem://1?b\<close>, which was free.
\<close>

theorem forward_ignores_cancellation:
  "isCancellationRequested cancelled_store
   \<and> store cancelled_store ''mem://1?b'' = None
   \<and> fst (sink_forward cancelled_store ''b'' example_handle) = Inr \<lparr>key = ''mem://1?b'', read = 0\<rparr>
   \<and> store (snd (sink_forward cancelled_store ''b'' example_handle)) ''mem://1?b'' = Some 0"
  unfolding cancelled_store_def example_forward
  by (simp add: example_store_eq)

section \<open>Forwarding, at the example store\<close>

lemma example_forward_plain:
  "sink_forward example_store ''b'' example_handle =
     (Inr \<lparr>key = ''mem://1?b'', read = 0\<rparr>,
      example_store\<lparr>uid := 2, store := [''mem://0?a'' \<mapsto> 0, ''mem://1?b'' \<mapsto> 0]\<rparr>)"
  using example_forward[of False] by (simp add: example_store_eq)

text \<open>
  The statement of C5 at the example store: \<^verbatim>\<open>Forward("b", A)\<close> yields \<^verbatim>\<open>mem://1?b\<close>,
  which reads \<^verbatim>\<open>foo\<close> with identity \<^verbatim>\<open>["x"]\<close>, and nothing is added to the object
  table.
\<close>

theorem forward_aliases_witness:
  "store_inv example_store
   \<and> store example_store (key example_handle) = Some (read example_handle)
   \<and> (\<exists>B st'. sink_forward example_store ''b'' example_handle = (Inr B, st')
        \<and> key B = ''mem://1?b'' \<and> read B = read example_handle
        \<and> objects st' = objects example_store
        \<and> ReadData st' B = ''foo'' \<and> identity_of st' B = [''x'']
        \<and> artifactType_of st' B = Some ''text''
        \<and> (\<exists>st2. sourceMap_Value st' example_handle = (Inr emptySourceMap, st2)
              \<and> sourceMap_Value st2 B = (Inr emptySourceMap, st2)))"
proof -
  have k: "store example_store (key example_handle) = Some (read example_handle)"
    by (simp add: example_store_eq example_handle_def)
  from forward_aliases[OF example_store_inv k, of "''b''"]
  obtain B st' where f: "sink_forward example_store ''b'' example_handle = (Inr B, st')"
    and r: "read B = read example_handle"
    and o: "objects st' = objects example_store"
    and d: "ReadData st' B = ReadData st' example_handle"
    and i: "identity_of st' B = identity_of st' example_handle"
    and m: "metadata_of st' B = metadata_of st' example_handle"
    and v: "\<forall>v st2. sourceMap_Value st' example_handle = (Inr v, st2) \<longrightarrow> sourceMap_Value st2 B = (Inr v, st2)"
    by blast
  from f have B: "B = \<lparr>key = ''mem://1?b'', read = 0\<rparr>"
    and st': "st' = example_store\<lparr>uid := 2, store := [''mem://0?a'' \<mapsto> 0, ''mem://1?b'' \<mapsto> 0]\<rparr>"
    by (simp_all add: example_forward_plain)
  have d': "ReadData st' example_handle = ''foo''"
    by (simp add: ReadData_def o example_store_eq example_handle_def)
  have i': "identity_of st' example_handle = [''x'']"
    by (simp add: identity_of_def o example_store_eq example_handle_def)
  have a': "artifactType_of st' example_handle = Some ''text''"
    by (simp add: artifactType_of_def metadata_of_def o example_store_eq example_handle_def new_Metadata_def)
  obtain st2 where sm: "sourceMap_Value st' example_handle = (Inr emptySourceMap, st2)"
    by (simp add: sourceMap_Value_def o example_store_eq example_handle_def new_Metadata_def
        sourceMap_factory_def)
  from v sm have smB: "sourceMap_Value st2 B = (Inr emptySourceMap, st2)" by blast
  have kB: "key B = ''mem://1?b''" using B by simp
  show ?thesis
    using example_store_inv k f kB r o d d' i i' m a' sm smB
    by (auto simp: artifactType_of_def)
qed


section \<open>Blame over one hop\<close>

text \<open>The per-line view holds, at each line, the entries of that line in their order.\<close>

lemma pad_eq: "pad res n = res @ replicate (Suc n - length res) []"
proof (induction res n rule: pad.induct)
  case (1 res n)
  show ?case
  proof (cases "length res \<le> n")
    case True
    then have "Suc n - length res = Suc (n - length res)" by simp
    with True 1 show ?thesis
      by (subst pad.simps) (simp add: replicate_app_Cons_same)
  next
    case False
    then show ?thesis by (subst pad.simps) simp
  qed
qed

lemma byLine_at_push:
  "byLine_at (byLine_push res m) l =
     byLine_at res l @ (if int (generatedLine m) = l then [m] else [])"
proof -
  let ?g = "generatedLine m"
  let ?res' = "res @ replicate (Suc ?g - length res) []"
  have len: "?g < length ?res'" by simp
  show ?thesis
  proof (cases "0 \<le> l")
    case False
    then show ?thesis by (simp add: byLine_at_def)
  next
    case True
    show ?thesis
    proof (cases "nat l = ?g")
      case True
      with \<open>0 \<le> l\<close> have e: "int ?g = l" by simp
      have "?res' ! ?g = byLine_at res l"
        using e by (auto simp: byLine_at_def nth_append)
      with True e len show ?thesis
        by (simp add: byLine_push_def pad_eq byLine_at_def Let_def del: replicate_Suc)
    next
      case False
      with \<open>0 \<le> l\<close> have ne: "int ?g \<noteq> l" by auto
      have "byLine_at (?res'[?g := ?res' ! ?g @ [m]]) l = byLine_at ?res' l"
        using False by (simp add: byLine_at_def)
      also have "\<dots> = byLine_at res l"
        using \<open>0 \<le> l\<close> by (auto simp: byLine_at_def nth_append)
      finally show ?thesis using ne by (simp add: byLine_push_def pad_eq Let_def)
    qed
  qed
qed

lemma byLine_at_foldl:
  "byLine_at (foldl byLine_push acc ms) l =
     byLine_at acc l @ filter (\<lambda>m. int (generatedLine m) = l) ms"
  by (induction ms arbitrary: acc) (simp_all add: byLine_at_push)

lemma byLine_at_Nil: "byLine_at [] l = []"
  by (simp add: byLine_at_def)

lemma byLine_at_eachMapping:
  "byLine_at (eachMapping_byLine table) l = filter (\<lambda>m. int (generatedLine m) = l) table"
  unfolding eachMapping_byLine_def byLine_at_foldl byLine_at_Nil by simp

text \<open>
  The \<^verbatim>\<open>reduce\<close> with \<^verbatim>\<open>Math.max\<close> from 0 is the greatest generated column of the
  entries it runs over, as no generated column is negative.
\<close>

lemma foldl_max_ge: "a \<le> foldl (\<lambda>c m. max c (int (generatedColumn m))) a xs"
proof (induction xs arbitrary: a)
  case Nil
  then show ?case by simp
next
  case (Cons x xs)
  have "a \<le> max a (int (generatedColumn x))" by simp
  also have "\<dots> \<le> foldl (\<lambda>c m. max c (int (generatedColumn m))) (max a (int (generatedColumn x))) xs"
    by (rule Cons.IH)
  finally show ?case by simp
qed

lemma foldl_max_upper:
  "m \<in> set xs \<Longrightarrow> int (generatedColumn m) \<le> foldl (\<lambda>c m. max c (int (generatedColumn m))) a xs"
proof (induction xs arbitrary: a)
  case Nil
  then show ?case by simp
next
  case (Cons x xs)
  show ?case
  proof (cases "m = x")
    case True
    have "int (generatedColumn x) \<le> max a (int (generatedColumn x))" by simp
    also have "\<dots> \<le> foldl (\<lambda>c m. max c (int (generatedColumn m))) (max a (int (generatedColumn x))) xs"
      by (rule foldl_max_ge)
    finally show ?thesis using True by simp
  next
    case False
    with Cons.prems have "m \<in> set xs" by simp
    then show ?thesis using Cons.IH by simp
  qed
qed

lemma foldl_max_attained:
  "foldl (\<lambda>c m. max c (int (generatedColumn m))) a xs = a
   \<or> (\<exists>m \<in> set xs. foldl (\<lambda>c m. max c (int (generatedColumn m))) a xs = int (generatedColumn m))"
proof (induction xs arbitrary: a)
  case Nil
  then show ?case by simp
next
  case (Cons x xs)
  from Cons.IH[of "max a (int (generatedColumn x))"] show ?case
    by (auto simp: max_def split: if_splits)
qed

lemma maxColumn_filter:
  assumes "m \<in> set xs"
  shows "int (generatedColumn m) = foldl (\<lambda>c m. max c (int (generatedColumn m))) 0 xs
         \<longleftrightarrow> (\<forall>m' \<in> set xs. generatedColumn m' \<le> generatedColumn m)"
proof
  assume e: "int (generatedColumn m) = foldl (\<lambda>c m. max c (int (generatedColumn m))) 0 xs"
  show "\<forall>m' \<in> set xs. generatedColumn m' \<le> generatedColumn m"
  proof
    fix m' assume "m' \<in> set xs"
    then have "int (generatedColumn m') \<le> foldl (\<lambda>c m. max c (int (generatedColumn m))) 0 xs"
      by (rule foldl_max_upper)
    with e show "generatedColumn m' \<le> generatedColumn m" by simp
  qed
next
  assume a: "\<forall>m' \<in> set xs. generatedColumn m' \<le> generatedColumn m"
  have up: "int (generatedColumn m) \<le> foldl (\<lambda>c m. max c (int (generatedColumn m))) 0 xs"
    using assms by (rule foldl_max_upper)
  from foldl_max_attained[of 0 xs]
  have "foldl (\<lambda>c m. max c (int (generatedColumn m))) 0 xs \<le> int (generatedColumn m)"
    using a by auto
  with up show "int (generatedColumn m) = foldl (\<lambda>c m. max c (int (generatedColumn m))) 0 xs"
    by simp
qed

text \<open>
  Claim C2. On the per-line view built from a mapping table, \<^verbatim>\<open>Blame\<close> at a position
  returns one result for each entry of the table that is in force there (on the line, at
  a generated column not beyond the column, and at the greatest such column), in the
  order of the table, each result being the original line, the original column plus the
  distance from that greatest column to the column, the name and the source. Entries that
  tie at the greatest column each give a result; and with no entry of the line at or
  before the column the result is empty.
\<close>

theorem Blame_single_hop:
  "Blame (eachMapping_byLine table) position =
     map (blameResult position) (filter (inForce table position) table)
   \<and> ((\<forall>m \<in> set table. \<not> (int (generatedLine m) = Position.line position
                              \<and> int (generatedColumn m) \<le> Position.column position))
      \<longrightarrow> Blame (eachMapping_byLine table) position = [])"
proof -
  define same where "same = filter (\<lambda>mapping. int (generatedColumn mapping) \<le> Position.column position)
                 (filter (\<lambda>m. int (generatedLine m) = Position.line position) table)"
  define mx where "mx = foldl (\<lambda>c m. max c (int (generatedColumn m))) 0 same"
  have B: "Blame (eachMapping_byLine table) position =
      map (\<lambda>m. \<lparr>MappedPosition.source = MappingItem.source m, line = originalLine m,
                 column = js_add (originalColumn m) (Position.column position - mx),
                 MappedPosition.name = MappingItem.name m\<rparr>)
        (filter (\<lambda>m. int (generatedColumn m) = mx) same)"
    unfolding Blame_def byLine_at_eachMapping Let_def same_def mx_def ..
  have pt: "(int (generatedLine m) = Position.line position
         \<and> int (generatedColumn m) \<le> Position.column position
         \<and> int (generatedColumn m) = mx) = inForce table position m" if mt: "m \<in> set table" for m
  proof (cases "int (generatedLine m) = Position.line position
                \<and> int (generatedColumn m) \<le> Position.column position")
    case False
    then show ?thesis by (auto simp: inForce_def)
  next
    case True
    with mt have "m \<in> set same" by (simp add: same_def)
    from maxColumn_filter[OF this] True show ?thesis by (auto simp: inForce_def mx_def same_def)
  qed
  have "filter (\<lambda>m. int (generatedColumn m) = mx) same
      = filter (\<lambda>m. int (generatedLine m) = Position.line position
         \<and> int (generatedColumn m) \<le> Position.column position
         \<and> int (generatedColumn m) = mx) table"
    by (simp add: same_def conj_ac)
  also have "\<dots> = filter (inForce table position) table"
    by (rule filter_cong[OF refl]) (rule pt)
  finally have sel: "filter (\<lambda>m. int (generatedColumn m) = mx) same = filter (inForce table position) table" .
  have res: "map (\<lambda>m. \<lparr>MappedPosition.source = MappingItem.source m, line = originalLine m,
                    column = js_add (originalColumn m) (Position.column position - mx),
                    MappedPosition.name = MappingItem.name m\<rparr>)
               (filter (\<lambda>m. int (generatedColumn m) = mx) same)
           = map (blameResult position) (filter (\<lambda>m. int (generatedColumn m) = mx) same)"
    by (rule map_cong) (auto simp: blameResult_def)
  have main: "Blame (eachMapping_byLine table) position =
     map (blameResult position) (filter (inForce table position) table)"
  proof -
    have "Blame (eachMapping_byLine table) position
        = map (blameResult position) (filter (\<lambda>m. int (generatedColumn m) = mx) same)"
      using B res by (rule trans)
    then show ?thesis by (simp only: sel)
  qed
  have "(\<forall>m \<in> set table. \<not> (int (generatedLine m) = Position.line position
                              \<and> int (generatedColumn m) \<le> Position.column position))
      \<longrightarrow> filter (inForce table position) table = []"
    by (auto simp: filter_empty_conv inForce_def)
  with main show ?thesis by simp
qed

text \<open>
  The statement of C2 at the inputs of the spec: one entry from (0,5) to (0,0) asked at
  (0,7) gives the one result (0,2); two entries that tie at column 5 asked at (0,6) give
  two results, both moved by 1; an entry at column 5 asked at (0,4) gives nothing.
\<close>

theorem Blame_single_hop_witness:
  "Blame (eachMapping_byLine [entry ''A'' 0 5 0 0]) \<lparr>Position.line = 0, Position.column = 7\<rparr>
     = [\<lparr>MappedPosition.source = Some ''A'', line = Some 0, column = 2, MappedPosition.name = None\<rparr>]
   \<and> Blame (eachMapping_byLine [entry ''A'' 0 3 0 0, entry ''A'' 0 5 4 1, entry ''C'' 0 5 2 8, entry ''A'' 1 6 0 0])
        \<lparr>Position.line = 0, Position.column = 6\<rparr>
     = [\<lparr>MappedPosition.source = Some ''A'', line = Some 4, column = 2, MappedPosition.name = None\<rparr>,
        \<lparr>MappedPosition.source = Some ''C'', line = Some 2, column = 9, MappedPosition.name = None\<rparr>]
   \<and> Blame (eachMapping_byLine [entry ''A'' 0 5 0 0]) \<lparr>Position.line = 0, Position.column = 4\<rparr> = []"
  using Blame_single_hop[of "[entry ''A'' 0 5 0 0]" "\<lparr>Position.line = 0, Position.column = 7\<rparr>"]
    Blame_single_hop[of "[entry ''A'' 0 3 0 0, entry ''A'' 0 5 4 1, entry ''C'' 0 5 2 8, entry ''A'' 1 6 0 0]"
      "\<lparr>Position.line = 0, Position.column = 6\<rparr>"]
    Blame_single_hop[of "[entry ''A'' 0 5 0 0]" "\<lparr>Position.line = 0, Position.column = 4\<rparr>"]
  by (simp add: inForce_def blameResult_def js_add_def entry_def)

section \<open>Source maps that name missing keys\<close>

lemma find_absent:
  "(\<exists>k \<in> set xs. P k) \<Longrightarrow> \<exists>k. find P xs = Some k \<and> k \<in> set xs \<and> P k"
  by (induction xs) auto

lemma find_present: "(\<forall>k \<in> set xs. \<not> P k) \<Longrightarrow> find P xs = None"
  by (induction xs) auto

lemma sourceMap_Value_first:
  assumes "metadata_of st2 h = Some (new_Metadata a (Some f) u h)"
  shows "((\<exists>k \<in> set (inputFiles (f h)). store st2 k = None) \<longrightarrow>
            (\<exists>k \<in> set (inputFiles (f h)). store st2 k = None
                \<and> sourceMap_Value st2 h = (Inl (DanglingMappingReference u k), st2)))
       \<and> ((\<forall>k \<in> set (inputFiles (f h)). store st2 k \<noteq> None) \<longrightarrow>
            fst (sourceMap_Value st2 h) = Inr (f h))"
proof (intro conjI impI)
  assume "\<exists>k \<in> set (inputFiles (f h)). store st2 k = None"
  then obtain k where "find (\<lambda>k. store st2 k = None) (inputFiles (f h)) = Some k"
    and "k \<in> set (inputFiles (f h))" and "store st2 k = None"
    using find_absent[of "inputFiles (f h)" "\<lambda>k. store st2 k = None"] by blast
  with assms show "\<exists>k \<in> set (inputFiles (f h)). store st2 k = None
                \<and> sourceMap_Value st2 h = (Inl (DanglingMappingReference u k), st2)"
    by (auto simp: sourceMap_Value_def metadata_of_def new_Metadata_def sourceMap_factory_def Let_def)
next
  assume "\<forall>k \<in> set (inputFiles (f h)). store st2 k \<noteq> None"
  then have "find (\<lambda>k. store st2 k = None) (inputFiles (f h)) = None"
    using find_present[of "inputFiles (f h)" "\<lambda>k. store st2 k = None"] by blast
  with assms show "fst (sourceMap_Value st2 h) = Inr (f h)"
    by (auto simp: sourceMap_Value_def metadata_of_def new_Metadata_def sourceMap_factory_def Let_def)
qed

lemma WriteData_metadata:
  assumes "\<not> isCancellationRequested st" and "store_inv st"
  shows "\<exists>h st1. WriteData st description d artifact ident f = (Inr h, st1)
           \<and> key h = fst (createUri st description)
           \<and> store st (key h) = None
           \<and> ReadData st1 h = d \<and> identity_of st1 h = ident
           \<and> metadata_of st1 h = Some (new_Metadata artifact f (key h) h)"
  using createUri_fresh[OF assms(2), of description]
  by (simp add: WriteData_ok[OF assms] Let_def metadata_of_def ReadData_def identity_of_def)

text \<open>
  Claim C4, as amended. A \<^verbatim>\<open>WriteData\<close> with a factory fails with \<open>Cancelled\<close> when
  cancellation has been requested; otherwise it succeeds and returns a handle, whatever
  the factory would produce. The factory is run at the first access of the view
  \<^verbatim>\<open>sourceMap\<close> (any store in which the view of the record is still as the write left
  it): if its map names, among its sources or as its file, a key that the store does not
  hold at that moment, the access fails with the dangling reference to such a key and
  changes nothing; if every named key exists the access yields the map of the factory
  as it is.
\<close>

theorem dangling_reference_lazy:
  assumes "store_inv st"
  shows "(isCancellationRequested st \<longrightarrow>
            fst (WriteData st description d artifact ident (Some f)) = Inl Cancelled)
       \<and> (\<not> isCancellationRequested st \<longrightarrow>
            (\<exists>h st1. WriteData st description d artifact ident (Some f) = (Inr h, st1)
               \<and> metadata_of st1 h = Some (new_Metadata artifact (Some f) (key h) h)
               \<and> (\<forall>st2. metadata_of st2 h = Some (new_Metadata artifact (Some f) (key h) h) \<longrightarrow>
                    ((\<exists>k \<in> set (inputFiles (f h)). store st2 k = None) \<longrightarrow>
                       (\<exists>k \<in> set (inputFiles (f h)). store st2 k = None
                          \<and> sourceMap_Value st2 h = (Inl (DanglingMappingReference (key h) k), st2)))
                  \<and> ((\<forall>k \<in> set (inputFiles (f h)). store st2 k \<noteq> None) \<longrightarrow>
                       fst (sourceMap_Value st2 h) = Inr (f h)))))"
proof (intro conjI impI)
  assume "isCancellationRequested st"
  then show "fst (WriteData st description d artifact ident (Some f)) = Inl Cancelled"
    by (simp add: WriteData_cancelled)
next
  assume nc: "\<not> isCancellationRequested st"
  from WriteData_metadata[OF nc assms, of description d artifact ident "Some f"]
  obtain h st1 where w: "WriteData st description d artifact ident (Some f) = (Inr h, st1)"
    and m: "metadata_of st1 h = Some (new_Metadata artifact (Some f) (key h) h)" by blast
  show "\<exists>h st1. WriteData st description d artifact ident (Some f) = (Inr h, st1)
               \<and> metadata_of st1 h = Some (new_Metadata artifact (Some f) (key h) h)
               \<and> (\<forall>st2. metadata_of st2 h = Some (new_Metadata artifact (Some f) (key h) h) \<longrightarrow>
                    ((\<exists>k \<in> set (inputFiles (f h)). store st2 k = None) \<longrightarrow>
                       (\<exists>k \<in> set (inputFiles (f h)). store st2 k = None
                          \<and> sourceMap_Value st2 h = (Inl (DanglingMappingReference (key h) k), st2)))
                  \<and> ((\<forall>k \<in> set (inputFiles (f h)). store st2 k \<noteq> None) \<longrightarrow>
                       fst (sourceMap_Value st2 h) = Inr (f h)))"
    using w m sourceMap_Value_first[of _ h artifact f "key h"] by blast
qed

lemma example_key2: "fst (createUri example_store ''b'') = ''mem://1?b''"
  by (simp add: createUri_eq example_store_eq toString_nat.simps digit_def BaseUri_def
      encodeChar_def uriUnreserved_def)

lemma example_write2:
  "WriteData example_store ''b'' ''bar'' ''text'' [''y''] f =
     (Inr \<lparr>key = ''mem://1?b'', read = 1\<rparr>,
      example_store\<lparr>uid := 2,
        store := [''mem://0?a'' \<mapsto> 0, ''mem://1?b'' \<mapsto> 1],
        objects := objects example_store @
          [\<lparr>data = ''bar'',
            metadata = Some (new_Metadata ''text'' f ''mem://1?b'' \<lparr>key = ''mem://1?b'', read = 1\<rparr>),
            identity = [''y'']\<rparr>]\<rparr>)"
proof -
  have nc: "\<not> isCancellationRequested example_store" by (simp add: example_store_eq)
  show ?thesis
    unfolding WriteData_ok[OF nc example_store_inv] Let_def example_key2
    by (simp add: example_store_eq)
qed

text \<open>
  The statement of C4 at the example store: the write of \<^verbatim>\<open>b\<close> with a factory that
  names \<^verbatim>\<open>mem://7?gone\<close> succeeds and the first access of its source map fails on that
  key; with a factory that names existing keys the access returns the factory's map.
\<close>

theorem dangling_reference_lazy_witness:
  "store_inv example_store \<and> \<not> isCancellationRequested example_store
   \<and> (\<exists>h st1. WriteData example_store ''b'' ''bar'' ''text'' [''y''] (Some dangling_factory) = (Inr h, st1)
        \<and> key h = ''mem://1?b''
        \<and> sourceMap_Value st1 h = (Inl (DanglingMappingReference ''mem://1?b'' ''mem://7?gone''), st1))
   \<and> (\<exists>h st1. WriteData example_store ''b'' ''bar'' ''text'' [''y''] (Some sound_factory) = (Inr h, st1)
        \<and> fst (sourceMap_Value st1 h) = Inr (sound_factory h))"
proof -
  have nc: "\<not> isCancellationRequested example_store" by (simp add: example_store_eq)
  from dangling_reference_lazy[OF example_store_inv,
      of "''b''" "''bar''" "''text''" "[''y'']" dangling_factory] nc
  obtain h st1 where w: "WriteData example_store ''b'' ''bar'' ''text'' [''y''] (Some dangling_factory) = (Inr h, st1)"
    and m: "metadata_of st1 h = Some (new_Metadata ''text'' (Some dangling_factory) (key h) h)"
    and a: "\<forall>st2. metadata_of st2 h = Some (new_Metadata ''text'' (Some dangling_factory) (key h) h) \<longrightarrow>
                    ((\<exists>k \<in> set (inputFiles (dangling_factory h)). store st2 k = None) \<longrightarrow>
                       (\<exists>k \<in> set (inputFiles (dangling_factory h)). store st2 k = None
                          \<and> sourceMap_Value st2 h = (Inl (DanglingMappingReference (key h) k), st2)))"
    by blast
  from w have h: "h = \<lparr>key = ''mem://1?b'', read = 1\<rparr>"
    and st1: "store st1 = [''mem://0?a'' \<mapsto> 0, ''mem://1?b'' \<mapsto> 1]"
    by (auto simp: example_write2)
  have "\<exists>k \<in> set (inputFiles (dangling_factory h)). store st1 k = None"
    by (simp add: inputFiles_def dangling_factory_def st1)
  with a m obtain k where "k \<in> set (inputFiles (dangling_factory h))" and "store st1 k = None"
    and e: "sourceMap_Value st1 h = (Inl (DanglingMappingReference (key h) k), st1)" by blast
  then have "k = ''mem://7?gone''"
    by (auto simp: inputFiles_def dangling_factory_def st1 h split: if_splits)
  with e h have d: "sourceMap_Value st1 h = (Inl (DanglingMappingReference ''mem://1?b'' ''mem://7?gone''), st1)"
    by simp
  from dangling_reference_lazy[OF example_store_inv,
      of "''b''" "''bar''" "''text''" "[''y'']" sound_factory] nc
  obtain h' st1' where w': "WriteData example_store ''b'' ''bar'' ''text'' [''y''] (Some sound_factory) = (Inr h', st1')"
    and m': "metadata_of st1' h' = Some (new_Metadata ''text'' (Some sound_factory) (key h') h')"
    and a': "\<forall>st2. metadata_of st2 h' = Some (new_Metadata ''text'' (Some sound_factory) (key h') h') \<longrightarrow>
                  ((\<forall>k \<in> set (inputFiles (sound_factory h')). store st2 k \<noteq> None) \<longrightarrow>
                       fst (sourceMap_Value st2 h') = Inr (sound_factory h'))"
    by blast
  from w' have h': "h' = \<lparr>key = ''mem://1?b'', read = 1\<rparr>"
    and st1': "store st1' = [''mem://0?a'' \<mapsto> 0, ''mem://1?b'' \<mapsto> 1]"
    by (auto simp: example_write2)
  have "\<forall>k \<in> set (inputFiles (sound_factory h')). store st1' k \<noteq> None"
    by (simp add: inputFiles_def sound_factory_def st1' h')
  with a' m' have s: "fst (sourceMap_Value st1' h') = Inr (sound_factory h')" by blast
  from h have kh: "key h = ''mem://1?b''" by simp
  show ?thesis
    using example_store_inv nc w kh d w' s by blast
qed

text \<open>
  Claim C4 as the spec words it has the write always succeed. On the cancelled example
  store it fails with \<open>Cancelled\<close>.
\<close>

theorem write_with_factory_cancelled_counterexample:
  "isCancellationRequested cancelled_store
   \<and> fst (WriteData cancelled_store ''b'' ''bar'' ''text'' [''y''] (Some sound_factory)) = Inl Cancelled"
  by (simp add: cancelled_store_def WriteData_cancelled)


section \<open>The read-through view\<close>

text \<open>A replacement without a dollar sign is taken as it is.\<close>

lemma expandReplacement_plain:
  "CHR ''$'' \<notin> set replacement \<Longrightarrow> expandReplacement replacement matched before behind = replacement"
  by (induction replacement matched before behind rule: expandReplacement.induct) auto

lemma replace_this_folder_plain:
  "CHR ''$'' \<notin> set replacement \<Longrightarrow>
   replace_this_folder replacement before s = replaceEvery this_folder replacement s"
proof (induction replacement before s rule: replace_this_folder.induct)
  case (1 replacement before s)
  have ne: "this_folder \<noteq> []" by (simp add: this_folder_def)
  show ?case
  proof (cases "s = []")
    case True
    then show ?thesis by (simp add: replace_this_folder.simps replaceEvery.simps)
  next
    case False
    show ?thesis
    proof (cases "take (length this_folder) s = this_folder")
      case True
      with False 1 ne show ?thesis
        by (subst replace_this_folder.simps, subst replaceEvery.simps)
           (simp add: expandReplacement_plain)
    next
      case nt: False
      with False 1 ne show ?thesis
        by (subst replace_this_folder.simps, subst replaceEvery.simps) simp
    qed
  qed
qed

text \<open>The call, the body and the whole read.\<close>

lemma Read_call_fresh:
  "cache v u = None \<Longrightarrow> Read_call st v u = v\<lparr>cache := (cache v)(u \<mapsto> Pending (Read st u))\<rparr>"
  by (simp add: Read_call_def)

lemma Read_call_slot: "cache (Read_call st v u) u \<noteq> None"
  by (simp add: Read_call_def split: option.splits)

lemma Read_call_again: "Read_call st' (Read_call st v u) u = Read_call st v u"
  by (simp add: Read_call_def split: option.splits)

lemma Read_call_other: "cache v u = Some p \<Longrightarrow> cache (Read_call st v u') u = Some p"
  by (auto simp: Read_call_def split: option.splits)

lemma Read_call_uris: "uris (Read_call st v u) = uris v"
  by (simp add: Read_call_def split: option.splits)

lemma Read_body_settled:
  "cache v u = Some (Settled r) \<Longrightarrow> Read_body ext st v u = ([], v, st)"
  by (simp add: Read_body_def)

lemma Read_body_other:
  "cache v u = Some (Settled r) \<Longrightarrow> cache (fst (snd (Read_body ext st v u'))) u = Some (Settled r)"
  by (auto simp: Read_body_def Let_def split: option.splits promise.splits sum.splits prod.splits)

lemma Read_hit:
  "cache v u = Some (Settled r) \<Longrightarrow> ReadThrough_Read ext st v u = (r, [], v, st)"
  by (simp add: ReadThrough_Read_def Read_call_def Read_body_settled)

lemma Read_miss:
  assumes "cache v u = None" and "Read st u = Inl e"
  shows "ReadThrough_Read ext st v u =
     (case populate ext u (snd (fetch ext u)) of
        None \<Rightarrow> (Inr None, fst (fetch ext u), v\<lparr>cache := (cache v)(u \<mapsto> Settled (Inr None))\<rparr>, st)
      | Some d \<Rightarrow>
          if d = [] then (Inr None, fst (fetch ext u), v\<lparr>cache := (cache v)(u \<mapsto> Settled (Inr None))\<rparr>, st)
          else
            (case WriteData st u d ''input-file'' [u] None of
               (Inl e', st') \<Rightarrow> (Inl e', fst (fetch ext u), v\<lparr>cache := (cache v)(u \<mapsto> Settled (Inl e'))\<rparr>, st')
             | (Inr readHandle, st') \<Rightarrow>
                 (Inr (Some readHandle), fst (fetch ext u),
                  v\<lparr>uris := uris v @ [u], cache := (cache v)(u \<mapsto> Settled (Inr (Some readHandle)))\<rparr>, st')))"
  using assms
  by (simp add: ReadThrough_Read_def Read_call_fresh Read_body_def Let_def split_def
      split: option.splits sum.splits prod.splits)

text \<open>
  Claim C10, as amended. For a uri that the view has not been asked for, that the store
  does not hold, and for which the outside world yields no content (a read throws, or the text is
  empty), the read resolves to \<^verbatim>\<open>null\<close>; the store is unchanged and the enumeration of
  the view is unchanged. The promise fulfilled with \<^verbatim>\<open>null\<close> stays under the uri through
  every later call and body of the view, and with it there every read of the uri
  resolves to \<^verbatim>\<open>null\<close> with an empty trace of external calls, whatever the outside
  world and the store have become.
\<close>

theorem negative_result_cached:
  assumes "cache v u = None" and "Read st u = Inl e"
    and "snd (fetch ext u) = None \<or> snd (fetch ext u) = Some []"
  shows "\<exists>v'. ReadThrough_Read ext st v u = (Inr None, fst (fetch ext u), v', st)
       \<and> Enum v' = Enum v
       \<and> cache v' u = Some (Settled (Inr None))
       \<and> (\<forall>ext' st2 v2. cache v2 u = Some (Settled (Inr None)) \<longrightarrow>
             ReadThrough_Read ext' st2 v2 u = (Inr None, [], v2, st2))
       \<and> (\<forall>ext' st2 v2 u'. cache v2 u = Some (Settled (Inr None)) \<longrightarrow>
             cache (Read_call st2 v2 u') u = Some (Settled (Inr None))
           \<and> cache (fst (snd (Read_body ext' st2 v2 u'))) u = Some (Settled (Inr None)))"
proof -
  define v' where "v' = v\<lparr>cache := (cache v)(u \<mapsto> Settled (Inr None))\<rparr>"
  from assms(3) have "populate ext u (snd (fetch ext u)) = None \<or> populate ext u (snd (fetch ext u)) = Some []"
    by (auto simp: populate_def)
  then have r: "ReadThrough_Read ext st v u = (Inr None, fst (fetch ext u), v', st)"
    unfolding Read_miss[OF assms(1,2)] v'_def by auto
  have e: "Enum v' = Enum v" by (simp add: Enum_def v'_def)
  have c: "cache v' u = Some (Settled (Inr None))" by (simp add: v'_def)
  have l: "\<forall>ext' st2 v2. cache v2 u = Some (Settled (Inr None)) \<longrightarrow>
             ReadThrough_Read ext' st2 v2 u = (Inr None, [], v2, st2)"
    using Read_hit by blast
  have p: "\<forall>ext' st2 v2 u'. cache v2 u = Some (Settled (Inr None)) \<longrightarrow>
             cache (Read_call st2 v2 u') u = Some (Settled (Inr None))
           \<and> cache (fst (snd (Read_body ext' st2 v2 u'))) u = Some (Settled (Inr None))"
    using Read_call_other Read_body_other by blast
  show ?thesis
    by (intro exI[of _ v'] conjI) (fact r e c l p)+
qed

lemma example_uri_probe: "Read st example_uri = (case store st example_uri of
    None \<Rightarrow> Inl (NotFound example_uri) | Some d \<Rightarrow> Inr \<lparr>key = example_uri, read = d\<rparr>)"
proof -
  have "ResolveUri BaseUri example_uri = example_uri"
    by (simp add: ResolveUri_def hasScheme_def example_uri_def)
  then show ?thesis by (simp add: Read_def)
qed

lemma example_uri_new: "Read new_DataStore example_uri = Inl (NotFound example_uri)"
  by (simp add: example_uri_probe new_DataStore_def)

text \<open>
  The statement of C10 at the example uri: the first read finds nothing, the second
  resolves to \<^verbatim>\<open>null\<close> although the resource can now be read.
\<close>

theorem negative_result_cached_witness:
  "cache new_ReadThroughDataSource example_uri = None
   \<and> Read new_DataStore example_uri = Inl (NotFound example_uri)
   \<and> snd (fetch absent example_uri) = None
   \<and> (\<exists>v'. ReadThrough_Read absent new_DataStore new_ReadThroughDataSource example_uri
               = (Inr None, [ReadFileCall example_uri], v', new_DataStore)
          \<and> Enum v' = []
          \<and> snd (fetch present example_uri) = Some ''$(this-folder)/x''
          \<and> ReadThrough_Read present new_DataStore v' example_uri = (Inr None, [], v', new_DataStore))"
proof -
  have c: "cache new_ReadThroughDataSource example_uri = None"
    by (simp add: new_ReadThroughDataSource_def)
  have f: "fetch absent example_uri = ([ReadFileCall example_uri], None)"
    by (simp add: fetch_def absent_def)
  then have f': "snd (fetch absent example_uri) = None \<or> snd (fetch absent example_uri) = Some []" by simp
  from negative_result_cached[OF c example_uri_new f']
  obtain v' where r: "ReadThrough_Read absent new_DataStore new_ReadThroughDataSource example_uri
               = (Inr None, fst (fetch absent example_uri), v', new_DataStore)"
    and e: "Enum v' = Enum new_ReadThroughDataSource"
    and s: "cache v' example_uri = Some (Settled (Inr None))"
    and l: "\<forall>ext' st2 v2. cache v2 example_uri = Some (Settled (Inr None)) \<longrightarrow>
             ReadThrough_Read ext' st2 v2 example_uri = (Inr None, [], v2, st2)"
    by blast
  from l s have again: "ReadThrough_Read present new_DataStore v' example_uri = (Inr None, [], v', new_DataStore)"
    by blast
  have p: "snd (fetch present example_uri) = Some ''$(this-folder)/x''"
    by (simp add: fetch_def present_def)
  have e': "Enum v' = []" using e by (simp add: Enum_def new_ReadThroughDataSource_def)
  show ?thesis using c example_uri_new f r e' p again by auto
qed

lemma WriteData_result:
  assumes "\<not> isCancellationRequested st" and "store_inv st"
  shows "\<exists>h st1. WriteData st description d artifact ident f = (Inr h, st1)
           \<and> store st (key h) = None
           \<and> Read st1 (key h) = Inr h
           \<and> ReadData st1 h = d \<and> identity_of st1 h = ident
           \<and> artifactType_of st1 h = Some artifact"
proof -
  from WriteData_metadata[OF assms, of description d artifact ident f]
  obtain h st1 where w: "WriteData st description d artifact ident f = (Inr h, st1)"
    and fr: "store st (key h) = None" and rd: "ReadData st1 h = d" and i: "identity_of st1 h = ident"
    and m: "metadata_of st1 h = Some (new_Metadata artifact f (key h) h)" by blast
  have inv: "store_inv st1" using store_inv_WriteData[OF assms(2), of description d artifact ident f] w by simp
  have "store st1 (key h) = Some (read h)"
    using w by (simp add: WriteData_ok[OF assms] Let_def) auto
  then have r: "Read st1 (key h) = Inr h" using Read_present[OF inv] by simp
  have a: "artifactType_of st1 h = Some artifact" using m by (simp add: artifactType_of_def new_Metadata_def)
  show ?thesis using w fr r rd i a by blast
qed

text \<open>
  Claim C7, as amended. For a uri that the view has not been asked for and that the
  store does not hold, while cancellation has not been requested: when the fetch yields
  a text that is not empty, the parent location holds no dollar sign, and the text with
  every occurrence of the token replaced by the parent location is not empty, the read
  writes that replaced text into the store under a key that was free, tagged
  \<^verbatim>\<open>input-file\<close>, with the uri as its only identity, and resolves to the handle of that
  artifact; the uri is added to the enumeration.
\<close>

theorem read_through_substitution:
  assumes "cache v u = None" and "Read st u = Inl e"
    and "\<not> isCancellationRequested st" and "store_inv st"
    and "snd (fetch ext u) = Some t" and "t \<noteq> []"
    and "CHR ''$'' \<notin> set (parentOf ext u)"
    and "replaceEvery this_folder (parentOf ext u) t \<noteq> []"
  shows "\<exists>h v' st'. ReadThrough_Read ext st v u = (Inr (Some h), fst (fetch ext u), v', st')
       \<and> store st (key h) = None
       \<and> Read st' (key h) = Inr h
       \<and> ReadData st' h = replaceEvery this_folder (parentOf ext u) t
       \<and> artifactType_of st' h = Some ''input-file''
       \<and> identity_of st' h = [u]
       \<and> Enum v' = Enum v @ [u]
       \<and> cache v' u = Some (Settled (Inr (Some h)))"
proof -
  define d where "d = replaceEvery this_folder (parentOf ext u) t"
  have p: "populate ext u (snd (fetch ext u)) = Some d"
    using assms(5,6,7) by (simp add: populate_def replace_this_folder_plain d_def)
  have dne: "d \<noteq> []" using assms(8) by (simp add: d_def)
  from WriteData_result[OF assms(3,4), of u d "''input-file''" "[u]" None]
  obtain h st1 where w: "WriteData st u d ''input-file'' [u] None = (Inr h, st1)"
    and fr: "store st (key h) = None" and r: "Read st1 (key h) = Inr h"
    and rd: "ReadData st1 h = d" and i: "identity_of st1 h = [u]"
    and a: "artifactType_of st1 h = Some ''input-file''" by blast
  define v' where "v' = v\<lparr>uris := uris v @ [u], cache := (cache v)(u \<mapsto> Settled (Inr (Some h)))\<rparr>"
  have rr: "ReadThrough_Read ext st v u = (Inr (Some h), fst (fetch ext u), v', st1)"
    unfolding Read_miss[OF assms(1,2)] p v'_def using dne w by simp
  have en: "Enum v' = Enum v @ [u]" by (simp add: Enum_def v'_def)
  have c: "cache v' u = Some (Settled (Inr (Some h)))" by (simp add: v'_def)
  show ?thesis
    using rr fr r rd[unfolded d_def] a i en c by blast
qed

lemma replaceEvery_example: "replaceEvery this_folder ''file:///d'' ''$(this-folder)/x'' = ''file:///d/x''"
  by code_simp

lemma replaceEvery_dollar: "replaceEvery this_folder ''file:///d$&'' ''$(this-folder)/x'' = ''file:///d$&/x''"
  by code_simp

lemma replace_dollar: "replace_this_folder ''file:///d$&'' [] ''$(this-folder)/x'' = ''file:///d$(this-folder)/x''"
  by code_simp

lemma example_uri_key: "fst (createUri new_DataStore example_uri) = ''mem://0?file%3A%2F%2F%2Fd%2Fr''"
  by (simp add: createUri_eq new_DataStore_def toString_nat.simps digit_def BaseUri_def
      encodeChar_def uriUnreserved_def hexDigit_def example_uri_def)

lemma example_uri_write:
  "WriteData new_DataStore example_uri d ''input-file'' [example_uri] None =
     (Inr \<lparr>key = ''mem://0?file%3A%2F%2F%2Fd%2Fr'', read = 0\<rparr>,
      \<lparr>isCancellationRequested = False, store = [''mem://0?file%3A%2F%2F%2Fd%2Fr'' \<mapsto> 0], uid = 1,
       objects = [\<lparr>data = d,
                   metadata = Some (new_Metadata ''input-file'' None ''mem://0?file%3A%2F%2F%2Fd%2Fr''
                                      \<lparr>key = ''mem://0?file%3A%2F%2F%2Fd%2Fr'', read = 0\<rparr>),
                   identity = [example_uri]\<rparr>]\<rparr>)"
proof -
  have nc: "\<not> isCancellationRequested new_DataStore" by (simp add: new_DataStore_def)
  show ?thesis
    unfolding WriteData_ok[OF nc store_inv_new] Let_def example_uri_key
    by (simp add: new_DataStore_def)
qed

text \<open>
  The statement of C7 at the example uri: the text \<^verbatim>\<open>$(this-folder)/x\<close> fetched for
  \<^verbatim>\<open>file:///d/r\<close> is stored as \<^verbatim>\<open>file:///d/x\<close>.
\<close>

theorem read_through_substitution_witness:
  "cache new_ReadThroughDataSource example_uri = None
   \<and> Read new_DataStore example_uri = Inl (NotFound example_uri)
   \<and> \<not> isCancellationRequested new_DataStore \<and> store_inv new_DataStore
   \<and> snd (fetch present example_uri) = Some ''$(this-folder)/x''
   \<and> parentOf present example_uri = ''file:///d''
   \<and> (\<exists>h v' st'. ReadThrough_Read present new_DataStore new_ReadThroughDataSource example_uri
                    = (Inr (Some h), [ReadFileCall example_uri], v', st')
          \<and> ReadData st' h = ''file:///d/x''
          \<and> artifactType_of st' h = Some ''input-file''
          \<and> identity_of st' h = [example_uri]
          \<and> Enum v' = [example_uri])"
proof -
  have c: "cache new_ReadThroughDataSource example_uri = None"
    by (simp add: new_ReadThroughDataSource_def)
  have nc: "\<not> isCancellationRequested new_DataStore" by (simp add: new_DataStore_def)
  have f: "fetch present example_uri = ([ReadFileCall example_uri], Some ''$(this-folder)/x'')"
    by (simp add: fetch_def present_def)
  then have f': "snd (fetch present example_uri) = Some ''$(this-folder)/x''" by simp
  have ne: "''$(this-folder)/x'' \<noteq> []" by simp
  have po: "parentOf present example_uri = ''file:///d''" by (simp add: parentOf_def present_def)
  have nd: "CHR ''$'' \<notin> set (parentOf present example_uri)" by (simp add: po)
  have re: "replaceEvery this_folder (parentOf present example_uri) ''$(this-folder)/x'' \<noteq> []"
    by (simp add: po replaceEvery_example)
  from read_through_substitution[OF c example_uri_new nc store_inv_new f' ne nd re]
  obtain h v' st' where "ReadThrough_Read present new_DataStore new_ReadThroughDataSource example_uri
        = (Inr (Some h), fst (fetch present example_uri), v', st')"
    and "ReadData st' h = replaceEvery this_folder (parentOf present example_uri) ''$(this-folder)/x''"
    and "artifactType_of st' h = Some ''input-file''"
    and "identity_of st' h = [example_uri]"
    and "Enum v' = Enum new_ReadThroughDataSource @ [example_uri]"
    by blast
  then have "ReadThrough_Read present new_DataStore new_ReadThroughDataSource example_uri
                    = (Inr (Some h), [ReadFileCall example_uri], v', st')
          \<and> ReadData st' h = ''file:///d/x''
          \<and> artifactType_of st' h = Some ''input-file''
          \<and> identity_of st' h = [example_uri]
          \<and> Enum v' = [example_uri]"
    by (simp add: f po replaceEvery_example Enum_def new_ReadThroughDataSource_def)
  then show ?thesis using c example_uri_new nc store_inv_new f' po by blast
qed

lemma miss_new:
  "ReadThrough_Read ext st new_ReadThroughDataSource example_uri =
     (case store st example_uri of
        Some r \<Rightarrow> (Inr (Some \<lparr>key = example_uri, read = r\<rparr>), [],
                   \<lparr>uris = [example_uri],
                    cache = [example_uri \<mapsto> Settled (Inr (Some \<lparr>key = example_uri, read = r\<rparr>))]\<rparr>, st)
      | None \<Rightarrow>
     (case populate ext example_uri (snd (fetch ext example_uri)) of
        None \<Rightarrow> (Inr None, fst (fetch ext example_uri),
                   \<lparr>uris = [], cache = [example_uri \<mapsto> Settled (Inr None)]\<rparr>, st)
      | Some d \<Rightarrow>
          if d = [] then (Inr None, fst (fetch ext example_uri),
                   \<lparr>uris = [], cache = [example_uri \<mapsto> Settled (Inr None)]\<rparr>, st)
          else
            (case WriteData st example_uri d ''input-file'' [example_uri] None of
               (Inl e', st') \<Rightarrow> (Inl e', fst (fetch ext example_uri),
                    \<lparr>uris = [], cache = [example_uri \<mapsto> Settled (Inl e')]\<rparr>, st')
             | (Inr readHandle, st') \<Rightarrow>
                 (Inr (Some readHandle), fst (fetch ext example_uri),
                  \<lparr>uris = [example_uri], cache = [example_uri \<mapsto> Settled (Inr (Some readHandle))]\<rparr>, st'))))"
  by (simp add: ReadThrough_Read_def Read_call_def Read_body_def new_ReadThroughDataSource_def
      example_uri_probe Let_def split_def split: option.splits sum.splits prod.splits)

text \<open>
  Claim C7 as the spec words it fails in four ways. A fetch that yields the empty text
  resolves to \<^verbatim>\<open>null\<close> and writes nothing. With cancellation requested the read is
  rejected with \<open>Cancelled\<close>. After a read that found nothing, the cached \<^verbatim>\<open>null\<close>
  is returned although the fetch would now yield text. And with \<^verbatim>\<open>$&\<close> in the parent
  location the stored text holds the token again in place of the pattern.
\<close>

theorem read_through_substitution_counterexample:
  "snd (fetch empty_text example_uri) = Some []
   \<and> fst (ReadThrough_Read empty_text new_DataStore new_ReadThroughDataSource example_uri) = Inr None
   \<and> snd (snd (snd (ReadThrough_Read empty_text new_DataStore new_ReadThroughDataSource example_uri)))
       = new_DataStore
   \<and> snd (fetch present example_uri) = Some ''$(this-folder)/x''
   \<and> fst (ReadThrough_Read present (new_DataStore\<lparr>isCancellationRequested := True\<rparr>)
            new_ReadThroughDataSource example_uri) = Inl Cancelled
   \<and> fst (ReadThrough_Read present new_DataStore
            (fst (snd (snd (ReadThrough_Read absent new_DataStore new_ReadThroughDataSource example_uri))))
            example_uri) = Inr None
   \<and> snd (fetch dollar_parent example_uri) = Some ''$(this-folder)/x''
   \<and> parentOf dollar_parent example_uri = ''file:///d$&''
   \<and> fst (ReadThrough_Read dollar_parent new_DataStore new_ReadThroughDataSource example_uri)
       = Inr (Some \<lparr>key = ''mem://0?file%3A%2F%2F%2Fd%2Fr'', read = 0\<rparr>)
   \<and> ReadData (snd (snd (snd (ReadThrough_Read dollar_parent new_DataStore new_ReadThroughDataSource example_uri))))
        \<lparr>key = ''mem://0?file%3A%2F%2F%2Fd%2Fr'', read = 0\<rparr> = ''file:///d$(this-folder)/x''
   \<and> replaceEvery this_folder ''file:///d$&'' ''$(this-folder)/x'' = ''file:///d$&/x''"
proof -
  have s0: "store new_DataStore example_uri = None" by (simp add: new_DataStore_def)
  have sc: "store (new_DataStore\<lparr>isCancellationRequested := True\<rparr>) example_uri = None"
    by (simp add: new_DataStore_def)
  have e1: "fetch empty_text example_uri = ([ReadFileCall example_uri, ReadUriCall example_uri], Some [])"
    by (simp add: fetch_def empty_text_def)
  have e2: "ReadThrough_Read empty_text new_DataStore new_ReadThroughDataSource example_uri
      = (Inr None, [ReadFileCall example_uri, ReadUriCall example_uri],
         \<lparr>uris = [], cache = [example_uri \<mapsto> Settled (Inr None)]\<rparr>, new_DataStore)"
    by (simp add: miss_new s0 e1 populate_def)
  have p1: "fetch present example_uri = ([ReadFileCall example_uri], Some ''$(this-folder)/x'')"
    by (simp add: fetch_def present_def)
  have pp: "populate present example_uri (Some ''$(this-folder)/x'') = Some ''file:///d/x''"
    using replace_this_folder_plain[of "''file:///d''" "[]" "''$(this-folder)/x''"]
    by (simp add: populate_def parentOf_def present_def replaceEvery_example)
  have c1: "fst (ReadThrough_Read present (new_DataStore\<lparr>isCancellationRequested := True\<rparr>)
            new_ReadThroughDataSource example_uri) = Inl Cancelled"
    by (simp add: miss_new s0 p1 pp WriteData_cancelled)
  have a1: "fetch absent example_uri = ([ReadFileCall example_uri], None)"
    by (simp add: fetch_def absent_def)
  have a2: "ReadThrough_Read absent new_DataStore new_ReadThroughDataSource example_uri
      = (Inr None, [ReadFileCall example_uri],
         \<lparr>uris = [], cache = [example_uri \<mapsto> Settled (Inr None)]\<rparr>, new_DataStore)"
    by (simp add: miss_new s0 a1 populate_def)
  have a3: "fst (ReadThrough_Read present new_DataStore
            (fst (snd (snd (ReadThrough_Read absent new_DataStore new_ReadThroughDataSource example_uri))))
            example_uri) = Inr None"
    unfolding a2 by (simp add: Read_hit)
  have d1: "fetch dollar_parent example_uri = ([ReadFileCall example_uri], Some ''$(this-folder)/x'')"
    by (simp add: fetch_def dollar_parent_def)
  have d2: "parentOf dollar_parent example_uri = ''file:///d$&''"
    by (simp add: parentOf_def dollar_parent_def)
  have d3: "populate dollar_parent example_uri (Some ''$(this-folder)/x'') = Some ''file:///d$(this-folder)/x''"
    by (simp add: populate_def d2 replace_dollar)
  have d4: "ReadThrough_Read dollar_parent new_DataStore new_ReadThroughDataSource example_uri
      = (Inr (Some \<lparr>key = ''mem://0?file%3A%2F%2F%2Fd%2Fr'', read = 0\<rparr>), [ReadFileCall example_uri],
         \<lparr>uris = [example_uri],
          cache = [example_uri \<mapsto> Settled (Inr (Some \<lparr>key = ''mem://0?file%3A%2F%2F%2Fd%2Fr'', read = 0\<rparr>))]\<rparr>,
         snd (WriteData new_DataStore example_uri ''file:///d$(this-folder)/x'' ''input-file'' [example_uri] None))"
    by (simp add: miss_new s0 d1 d3 example_uri_write)
  have d5: "ReadData (snd (snd (snd (ReadThrough_Read dollar_parent new_DataStore new_ReadThroughDataSource example_uri))))
        \<lparr>key = ''mem://0?file%3A%2F%2F%2Fd%2Fr'', read = 0\<rparr> = ''file:///d$(this-folder)/x''"
    unfolding d4 by (simp add: example_uri_write ReadData_def)
  show ?thesis
    using e1 e2 p1 c1 a3 d1 d2 d4 d5 replaceEvery_dollar by simp
qed

subsection \<open>A cached outcome comes before the outside world\<close>

lemma present_read:
  "ReadThrough_Read present new_DataStore new_ReadThroughDataSource example_uri
      = (Inr (Some \<lparr>key = ''mem://0?file%3A%2F%2F%2Fd%2Fr'', read = 0\<rparr>), [ReadFileCall example_uri],
         \<lparr>uris = [example_uri],
          cache = [example_uri \<mapsto> Settled (Inr (Some \<lparr>key = ''mem://0?file%3A%2F%2F%2Fd%2Fr'', read = 0\<rparr>))]\<rparr>,
         snd (WriteData new_DataStore example_uri ''file:///d/x'' ''input-file'' [example_uri] None))"
proof -
  have s0: "store new_DataStore example_uri = None" by (simp add: new_DataStore_def)
  have p1: "fetch present example_uri = ([ReadFileCall example_uri], Some ''$(this-folder)/x'')"
    by (simp add: fetch_def present_def)
  have pp: "populate present example_uri (Some ''$(this-folder)/x'') = Some ''file:///d/x''"
    using replace_this_folder_plain[of "''file:///d''" "[]" "''$(this-folder)/x''"]
    by (simp add: populate_def parentOf_def present_def replaceEvery_example)
  show ?thesis by (simp add: miss_new s0 p1 pp example_uri_write)
qed

lemma present_read_cancelled:
  "fst (snd (snd (ReadThrough_Read present (new_DataStore\<lparr>isCancellationRequested := True\<rparr>)
       new_ReadThroughDataSource example_uri)))
     = \<lparr>uris = [], cache = [example_uri \<mapsto> Settled (Inl Cancelled)]\<rparr>
   \<and> store (snd (snd (snd (ReadThrough_Read present (new_DataStore\<lparr>isCancellationRequested := True\<rparr>)
       new_ReadThroughDataSource example_uri)))) = Map.empty"
proof -
  have s0: "store new_DataStore example_uri = None" by (simp add: new_DataStore_def)
  have p1: "fetch present example_uri = ([ReadFileCall example_uri], Some ''$(this-folder)/x'')"
    by (simp add: fetch_def present_def)
  have pp: "populate present example_uri (Some ''$(this-folder)/x'') = Some ''file:///d/x''"
    using replace_this_folder_plain[of "''file:///d''" "[]" "''$(this-folder)/x''"]
    by (simp add: populate_def parentOf_def present_def replaceEvery_example)
  show ?thesis by (simp add: miss_new s0 p1 pp WriteData_cancelled new_DataStore_def)
qed

text \<open>
  Claim C10 as the spec words it has every read of a uri that the store does not hold and
  for which the outside world yields no content resolve to \<^verbatim>\<open>null\<close>. A view that has
  been asked for the uri before answers with the outcome of that first read. After a first
  read that fetched and stored the text, the uri itself is still no key of the store (the
  text sits under a key \<^verbatim>\<open>mem://0?...\<close>), and once the resource is gone a read resolves
  to the cached handle. After a first read that was rejected with \<open>Cancelled\<close>, a read
  is rejected again.
\<close>

theorem negative_result_cached_counterexample:
  "Read fetched_store example_uri = Inl (NotFound example_uri)
   \<and> snd (fetch absent example_uri) = None
   \<and> fst (ReadThrough_Read absent fetched_store fetched_view example_uri)
       = Inr (Some \<lparr>key = ''mem://0?file%3A%2F%2F%2Fd%2Fr'', read = 0\<rparr>)
   \<and> fst (ReadThrough_Read absent fetched_store fetched_view example_uri) \<noteq> Inr None
   \<and> Read rejected_store example_uri = Inl (NotFound example_uri)
   \<and> fst (ReadThrough_Read absent rejected_store rejected_view example_uri) = Inl Cancelled
   \<and> fst (ReadThrough_Read absent rejected_store rejected_view example_uri) \<noteq> Inr None"
proof -
  have a1: "snd (fetch absent example_uri) = None" by (simp add: fetch_def absent_def)
  have ne: "example_uri \<noteq> ''mem://0?file%3A%2F%2F%2Fd%2Fr''" by (simp add: example_uri_def)
  have s1: "store fetched_store example_uri = None"
    unfolding fetched_store_def present_read by (simp add: example_uri_write ne)
  have r1: "Read fetched_store example_uri = Inl (NotFound example_uri)"
    by (simp add: example_uri_probe s1)
  have c1: "cache fetched_view example_uri
      = Some (Settled (Inr (Some \<lparr>key = ''mem://0?file%3A%2F%2F%2Fd%2Fr'', read = 0\<rparr>)))"
    unfolding fetched_view_def present_read by simp
  have h1: "fst (ReadThrough_Read absent fetched_store fetched_view example_uri)
       = Inr (Some \<lparr>key = ''mem://0?file%3A%2F%2F%2Fd%2Fr'', read = 0\<rparr>)"
    by (simp add: Read_hit[OF c1])
  have s2: "store rejected_store example_uri = None"
    unfolding rejected_store_def by (simp add: present_read_cancelled)
  have r2: "Read rejected_store example_uri = Inl (NotFound example_uri)"
    by (simp add: example_uri_probe s2)
  have c2: "cache rejected_view example_uri = Some (Settled (Inl Cancelled))"
    unfolding rejected_view_def by (simp add: present_read_cancelled)
  have h2: "fst (ReadThrough_Read absent rejected_store rejected_view example_uri) = Inl Cancelled"
    by (simp add: Read_hit[OF c2])
  show ?thesis using a1 r1 h1 r2 h2 by simp
qed

section \<open>One promise per uri\<close>

lemma WriteData_effect:
  "\<exists>res st'. WriteData st description d artifact ident f = (res, st')
     \<and> ((store st' = store st \<and> objects st' = objects st)
        \<or> (\<exists>k. store st k = None \<and> store st' = (store st)(k \<mapsto> length (objects st))
               \<and> length (objects st') = length (objects st) + 1))"
proof (cases "isCancellationRequested st")
  case True
  then show ?thesis by (simp add: WriteData_cancelled)
next
  case False
  let ?K = "BaseUri @ toString_nat (uid st) @ CHR ''?'' # encodeURIComponent description"
  show ?thesis
  proof (cases "store st ?K")
    case (Some r)
    with False show ?thesis
      by (simp add: WriteData_def createUri_eq WriteDataInternal_def ThrowIfCancelled_def)
  next
    case None
    with False have "\<exists>res st'. WriteData st description d artifact ident f = (res, st')
      \<and> store st' = (store st)(?K \<mapsto> length (objects st))
      \<and> length (objects st') = length (objects st) + 1"
      by (simp add: WriteData_def createUri_eq WriteDataInternal_def ThrowIfCancelled_def
          Read_def ResolveUri_base Let_def)
    with None show ?thesis by blast
  qed
qed

lemma Read_body_effect:
  assumes "cache v u \<noteq> None"
  shows "\<exists>calls v' st3 outcome. Read_body ext st2 v u = (calls, v', st3)
        \<and> (calls = [] \<or> calls = [ReadFileCall u] \<or> calls = [ReadFileCall u, ReadUriCall u])
        \<and> ((store st3 = store st2 \<and> objects st3 = objects st2)
           \<or> (\<exists>k. store st2 k = None \<and> store st3 = (store st2)(k \<mapsto> length (objects st2))
                  \<and> length (objects st3) = length (objects st2) + 1))
        \<and> cache v' u = Some (Settled outcome)"
proof -
  from assms obtain p where p: "cache v u = Some p" by auto
  have calls: "fst (fetch ext u) = [ReadFileCall u] \<or> fst (fetch ext u) = [ReadFileCall u, ReadUriCall u]"
    by (auto simp: fetch_def split: sum.splits)
  show ?thesis
  proof (cases p)
    case (Settled r)
    with p show ?thesis by (simp add: Read_body_def)
  next
    case (Pending probe)
    show ?thesis
    proof (cases probe)
      case (Inr existingData)
      with p Pending show ?thesis by (simp add: Read_body_def)
    next
      case (Inl e)
      show ?thesis
      proof (cases "populate ext u (snd (fetch ext u))")
        case None
        with p Pending Inl calls show ?thesis by (auto simp: Read_body_def split_def)
      next
        case (Some d)
        show ?thesis
        proof (cases "d = []")
          case True
          with p Pending Inl calls Some show ?thesis by (auto simp: Read_body_def split_def)
        next
          case False
          from WriteData_effect[of st2 u d "''input-file''" "[u]" None]
          obtain res st' where w: "WriteData st2 u d ''input-file'' [u] None = (res, st')"
            and eff: "(store st' = store st2 \<and> objects st' = objects st2)
                \<or> (\<exists>k. store st2 k = None \<and> store st' = (store st2)(k \<mapsto> length (objects st2))
                  \<and> length (objects st') = length (objects st2) + 1)" by blast
          show ?thesis
          proof (cases res)
            case (Inl e')
            with p Pending \<open>probe = Inl e\<close> Some False w eff calls show ?thesis
              by (auto simp: Read_body_def split_def)
          next
            case (Inr h)
            with p Pending \<open>probe = Inl e\<close> Some False w eff calls show ?thesis
              by (auto simp: Read_body_def split_def)
          qed
        qed
      qed
    qed
  qed
qed

text \<open>
  Claim C6. A call of \<^verbatim>\<open>Read(uri)\<close> leaves a promise under the uri, by itself and before
  any body runs. A second call for the uri before the body has run changes nothing: it
  gets the promise of the first. The one body of that promise makes no external call, or
  one \<^verbatim>\<open>ReadFile\<close>, or one \<^verbatim>\<open>ReadFile\<close> and one \<^verbatim>\<open>ReadUri\<close>, all for this uri;
  it leaves the store as it is or binds one free key to one new record; and it settles
  the promise with one outcome. From then on the body does nothing more, and every read
  of the uri resolves to that outcome, so both callers get the same handle.
\<close>

theorem read_through_dedup:
  "cache (Read_call st v u) u \<noteq> None
   \<and> Read_call st' (Read_call st v u) u = Read_call st v u
   \<and> (\<exists>calls v' st3 outcome.
         Read_body ext st2 (Read_call st' (Read_call st v u) u) u = (calls, v', st3)
       \<and> (calls = [] \<or> calls = [ReadFileCall u] \<or> calls = [ReadFileCall u, ReadUriCall u])
       \<and> ((store st3 = store st2 \<and> objects st3 = objects st2)
          \<or> (\<exists>k. store st2 k = None \<and> store st3 = (store st2)(k \<mapsto> length (objects st2))
                 \<and> length (objects st3) = length (objects st2) + 1))
       \<and> cache v' u = Some (Settled outcome)
       \<and> Read_body ext' st4 v' u = ([], v', st4)
       \<and> ReadThrough_Read ext' st4 v' u = (outcome, [], v', st4))"
proof -
  have slot: "cache (Read_call st v u) u \<noteq> None" by (rule Read_call_slot)
  have again: "Read_call st' (Read_call st v u) u = Read_call st v u" by (rule Read_call_again)
  from Read_body_effect[OF slot, of ext st2]
  obtain calls v' st3 outcome where b: "Read_body ext st2 (Read_call st v u) u = (calls, v', st3)"
    and c: "calls = [] \<or> calls = [ReadFileCall u] \<or> calls = [ReadFileCall u, ReadUriCall u]"
    and w: "(store st3 = store st2 \<and> objects st3 = objects st2)
          \<or> (\<exists>k. store st2 k = None \<and> store st3 = (store st2)(k \<mapsto> length (objects st2))
                 \<and> length (objects st3) = length (objects st2) + 1)"
    and s: "cache v' u = Some (Settled outcome)" by blast
  have n: "Read_body ext' st4 v' u = ([], v', st4)" using s by (rule Read_body_settled)
  have h: "ReadThrough_Read ext' st4 v' u = (outcome, [], v', st4)" using s by (rule Read_hit)
  show ?thesis
    unfolding again using slot b c w s n h by blast
qed

text \<open>
  The statement of C6 at the example uri: two calls, then the body: one call of the file
  system, one key in the store, and a later read resolves to the handle of that key.
\<close>

lemma example_calls:
  "Read_call st' (Read_call new_DataStore new_ReadThroughDataSource example_uri) example_uri
     = \<lparr>uris = [], cache = [example_uri \<mapsto> Pending (Inl (NotFound example_uri))]\<rparr>"
  by (simp add: Read_call_def new_ReadThroughDataSource_def example_uri_new)

lemma example_body:
  "Read_body present new_DataStore
     \<lparr>uris = [], cache = [example_uri \<mapsto> Pending (Inl (NotFound example_uri))]\<rparr> example_uri
   = ([ReadFileCall example_uri],
      \<lparr>uris = [example_uri],
       cache = [example_uri \<mapsto> Settled (Inr (Some \<lparr>key = ''mem://0?file%3A%2F%2F%2Fd%2Fr'', read = 0\<rparr>))]\<rparr>,
      snd (WriteData new_DataStore example_uri ''file:///d/x'' ''input-file'' [example_uri] None))"
proof -
  have p1: "fetch present example_uri = ([ReadFileCall example_uri], Some ''$(this-folder)/x'')"
    by (simp add: fetch_def present_def)
  have pp: "populate present example_uri (Some ''$(this-folder)/x'') = Some ''file:///d/x''"
    using replace_this_folder_plain[of "''file:///d''" "[]" "''$(this-folder)/x''"]
    by (simp add: populate_def parentOf_def present_def replaceEvery_example)
  show ?thesis
    by (simp add: Read_body_def p1 pp example_uri_write)
qed

theorem read_through_dedup_witness:
  "Read_call new_DataStore (Read_call new_DataStore new_ReadThroughDataSource example_uri) example_uri
     = Read_call new_DataStore new_ReadThroughDataSource example_uri
   \<and> cache (Read_call new_DataStore new_ReadThroughDataSource example_uri) example_uri
     = Some (Pending (Inl (NotFound example_uri)))
   \<and> (\<exists>v' st3.
        Read_body present new_DataStore
          (Read_call new_DataStore (Read_call new_DataStore new_ReadThroughDataSource example_uri) example_uri)
          example_uri
        = ([ReadFileCall example_uri], v', st3)
      \<and> store st3 = [''mem://0?file%3A%2F%2F%2Fd%2Fr'' \<mapsto> 0]
      \<and> ReadThrough_Read absent st3 v' example_uri
        = (Inr (Some \<lparr>key = ''mem://0?file%3A%2F%2F%2Fd%2Fr'', read = 0\<rparr>), [], v', st3))"
proof -
  define st3 where "st3 = snd (WriteData new_DataStore example_uri ''file:///d/x'' ''input-file'' [example_uri] None)"
  from read_through_dedup[of new_DataStore new_ReadThroughDataSource example_uri new_DataStore
      present new_DataStore absent st3]
  obtain calls v' st3' outcome where
    a: "Read_call new_DataStore (Read_call new_DataStore new_ReadThroughDataSource example_uri) example_uri
         = Read_call new_DataStore new_ReadThroughDataSource example_uri"
    and b: "Read_body present new_DataStore
          (Read_call new_DataStore (Read_call new_DataStore new_ReadThroughDataSource example_uri) example_uri)
          example_uri = (calls, v', st3')"
    and s: "cache v' example_uri = Some (Settled outcome)"
    and r: "ReadThrough_Read absent st3 v' example_uri = (outcome, [], v', st3)"
    by blast
  from b have calls: "calls = [ReadFileCall example_uri]"
    and v': "v' = \<lparr>uris = [example_uri],
       cache = [example_uri \<mapsto> Settled (Inr (Some \<lparr>key = ''mem://0?file%3A%2F%2F%2Fd%2Fr'', read = 0\<rparr>))]\<rparr>"
    and st3': "st3' = st3"
    by (auto simp: example_calls example_body st3_def)
  from s v' have o: "outcome = Inr (Some \<lparr>key = ''mem://0?file%3A%2F%2F%2Fd%2Fr'', read = 0\<rparr>)" by simp
  have st: "store st3 = [''mem://0?file%3A%2F%2F%2Fd%2Fr'' \<mapsto> 0]"
    by (simp add: st3_def example_uri_write)
  have c: "cache (Read_call new_DataStore new_ReadThroughDataSource example_uri) example_uri
     = Some (Pending (Inl (NotFound example_uri)))"
    by (simp add: Read_call_def new_ReadThroughDataSource_def example_uri_new)
  show ?thesis
    using a c b[unfolded calls st3'] st r[unfolded o] by blast
qed


section \<open>The flattened mapping table\<close>

text \<open>Blame returns within the fuel when the hops end.\<close>

lemma collect_returns: "(\<forall>r \<in> set rs. r \<noteq> None) \<Longrightarrow> collect rs \<noteq> None"
proof (induction rs rule: collect.induct)
  case 1
  then show ?case by simp
next
  case (2 rs)
  then show ?case by simp
next
  case (3 e rs)
  then show ?case by simp
next
  case (4 x rs)
  then show ?case by (auto split: option.splits sum.splits)
qed

lemma byLine_at_subset: "set (byLine_at v l) \<subseteq> set (concat v)"
proof (cases "0 \<le> l \<and> nat l < length v")
  case True
  then have "v ! nat l \<in> set v" by simp
  then have "set (v ! nat l) \<subseteq> set (concat v)" by auto
  with True show ?thesis by (simp add: byLine_at_def)
next
  case False
  then show ?thesis by (auto simp: byLine_at_def)
qed

lemma Blame_sources:
  assumes "c \<in> set (Blame byLine position)"
  shows "\<exists>m \<in> set (concat byLine). MappedPosition.source c = MappingItem.source m"
proof -
  from assms obtain m where "m \<in> set (byLine_at byLine (Position.line position))"
    and "MappedPosition.source c = MappingItem.source m"
    by (auto simp: Blame_def Let_def)
  with byLine_at_subset show ?thesis by blast
qed

lemma Blame_at_sources:
  assumes "c \<in> set (Blame_at byLine position)"
  shows "\<exists>m \<in> set (concat byLine). MappedPosition.source c = MappingItem.source m"
  using assms Blame_sources by (auto simp: Blame_at_def split: option.splits)

lemma BlameTree_Create_returns:
  assumes "hopsEnd st rank"
  shows "rank (MappedPosition.source p) < n \<Longrightarrow> BlameTree_Create n st p \<noteq> None"
proof (induction n arbitrary: p)
  case 0
  then show ?case by simp
next
  case (Suc n)
  show ?case
  proof (cases "ownIndex st (MappedPosition.source p)")
    case (Inl e)
    then show ?thesis by simp
  next
    case (Inr byLine)
    then obtain k where k: "MappedPosition.source p = Some k"
      by (cases "MappedPosition.source p") (auto simp: ownIndex_def)
    have "\<forall>r \<in> set (map (BlameTree_Create n st) (Blame_at byLine p)). r \<noteq> None"
    proof
      fix r assume "r \<in> set (map (BlameTree_Create n st) (Blame_at byLine p))"
      then obtain c where c: "c \<in> set (Blame_at byLine p)" and r: "r = BlameTree_Create n st c" by auto
      from Blame_at_sources[OF c] obtain m where m: "m \<in> set (concat byLine)"
        and s: "MappedPosition.source c = MappingItem.source m" by blast
      from Inr k have "ownIndex st (Some k) = Inr byLine" by simp
      with assms m have "rank (MappingItem.source m) < rank (Some k)"
        unfolding hopsEnd_def by blast
      with Suc.prems k s have "rank (MappedPosition.source c) < n" by simp
      then show "r \<noteq> None" unfolding r by (rule Suc.IH)
    qed
    then have "collect (map (BlameTree_Create n st) (Blame_at byLine p)) \<noteq> None"
      by (rule collect_returns)
    with Inr show ?thesis by (auto split: option.splits sum.splits)
  qed
qed

lemma DataStore_Blame_returns:
  assumes "hopsEnd st rank" and "rank (Some k) < n"
  shows "DataStore_Blame n st k position \<noteq> None"
  using BlameTree_Create_returns[OF assms(1), of _ n] assms(2)
  by (simp add: DataStore_Blame_def split: sum.splits)

lemma collectBlame_returns:
  assumes "hopsEnd st rank" and "rank (Some k) < n"
  shows "collectBlame n st k targets acc \<noteq> None"
proof (induction targets arbitrary: acc)
  case Nil
  then show ?case by simp
next
  case (Cons t targets)
  from DataStore_Blame_returns[OF assms, of t] Cons.IH show ?case
    by (auto split: option.splits sum.splits)
qed

lemma CreateInputSourceMapFor_returns:
  assumes "hopsEnd st rank" and "rank (Some k) < n"
  shows "CreateInputSourceMapFor n st k \<noteq> None"
proof (cases "ReadStrictSync st k")
  case (Inl e)
  then show ?thesis by (simp add: CreateInputSourceMapFor_def)
next
  case (Inr d)
  show ?thesis
  proof (cases "fst (sourceMap_Value st d)")
    case (Inl e)
    with Inr show ?thesis by (simp add: CreateInputSourceMapFor_def)
  next
    case sm: (Inr sm)
    let ?targets = "map (\<lambda>m. \<lparr>Position.line = int (generatedLine m),
                               Position.column = int (generatedColumn m)\<rparr>) (mappings sm)"
    from collectBlame_returns[OF assms, of ?targets "[]"]
    obtain r where "collectBlame n st k ?targets [] = Some r" by auto
    with Inr sm show ?thesis
      by (cases r) (simp_all add: CreateInputSourceMapFor_def Let_def)
  qed
qed

text \<open>What the two loops push.\<close>

lemma friendlyName_descriptionOf:
  assumes "friendlyName st src = Inr friendly"
  shows "\<exists>k r. src = Some k \<and> store st k = Some r \<and> Description \<lparr>key = k, read = r\<rparr> = Inr friendly
           \<and> descriptionOf src = friendly"
proof -
  from assms obtain k where k: "src = Some k" by (cases src) (auto simp: friendlyName_def)
  with assms obtain r where r: "store st k = Some r"
    by (cases "store st k") (auto simp: friendlyName_def ReadStrictSync_def)
  with assms k have d: "Description \<lparr>key = k, read = r\<rparr> = Inr friendly"
    by (simp add: friendlyName_def ReadStrictSync_def)
  then have "descriptionOf src = friendly" by (simp add: descriptionOf_def k Description_def)
  with k r d show ?thesis by blast
qed

lemma pushLeafs_result:
  "pushLeafs st root leaves acc = Inr res \<Longrightarrow>
     res = acc @ map (leafMapping root) leaves
   \<and> (\<forall>leaf \<in> set leaves. \<exists>friendly. friendlyName st (MappedPosition.source leaf) = Inr friendly)"
proof (induction leaves arbitrary: acc)
  case Nil
  then show ?case by simp
next
  case (Cons leaf leaves)
  from Cons.prems obtain friendly where f: "friendlyName st (MappedPosition.source leaf) = Inr friendly"
    by (cases "friendlyName st (MappedPosition.source leaf)") auto
  then have d: "descriptionOf (MappedPosition.source leaf) = friendly"
    using friendlyName_descriptionOf by blast
  from Cons.prems f have "pushLeafs st root leaves
      (acc @ [\<lparr>name = MappedPosition.name leaf, source = friendly, generated = root, original = leaf\<rparr>]) = Inr res"
    by simp
  from Cons.IH[OF this] f d show ?case by (auto simp: leafMapping_def)
qed

lemma collectBlame_result:
  "collectBlame n st k targets acc = Some (Inr res) \<Longrightarrow>
     (\<forall>t \<in> set targets. \<exists>tree. DataStore_Blame n st k t = Some (Inr tree)
         \<and> (\<forall>leaf \<in> set (BlameLeafs tree). \<exists>friendly. friendlyName st (MappedPosition.source leaf) = Inr friendly))
   \<and> res = acc @ concat (map (\<lambda>t. case DataStore_Blame n st k t of
                                       Some (Inr tree) \<Rightarrow> map (leafMapping (node tree)) (BlameLeafs tree)
                                     | _ \<Rightarrow> []) targets)"
proof (induction targets arbitrary: acc)
  case Nil
  then show ?case by simp
next
  case (Cons t targets)
  from Cons.prems obtain tree where tr: "DataStore_Blame n st k t = Some (Inr tree)"
    by (cases "DataStore_Blame n st k t") (auto split: sum.splits)
  with Cons.prems obtain acc' where p: "pushLeafs st (node tree) (BlameLeafs tree) acc = Inr acc'"
    and rest: "collectBlame n st k targets acc' = Some (Inr res)"
    by (cases "pushLeafs st (node tree) (BlameLeafs tree) acc") auto
  from pushLeafs_result[OF p] have acc': "acc' = acc @ map (leafMapping (node tree)) (BlameLeafs tree)"
    and fr: "\<forall>leaf \<in> set (BlameLeafs tree). \<exists>friendly. friendlyName st (MappedPosition.source leaf) = Inr friendly"
    by auto
  from Cons.IH[OF rest] tr acc' fr show ?case by auto
qed

text \<open>
  Reading a view fills a slot and changes the value of no view: the blame, which reads
  the views of the records it passes, sees the same values whether or not the slots are
  filled on its way.
\<close>

lemma sourceMap_Value_store:
  "sourceMap_Value st h = (r, st') \<Longrightarrow> store st' = store st \<and> length (objects st') = length (objects st)"
  by (auto simp: sourceMap_Value_def update_metadata_def split: option.splits sum.splits)

lemma sourceMap_Value_stable:
  assumes "sourceMap_Value st h = (r, st')"
  shows "fst (sourceMap_Value st' h2) = fst (sourceMap_Value st h2)"
proof (cases "metadata (objects st ! read h)")
  case None
  with assms show ?thesis by (simp add: sourceMap_Value_def)
next
  case (Some md)
  show ?thesis
  proof (cases "sourceMap md")
    case (Some v)
    with \<open>metadata (objects st ! read h) = Some md\<close> assms show ?thesis
      by (simp add: sourceMap_Value_def)
  next
    case None
    show ?thesis
    proof (cases "sourceMap_factory st md")
      case (Inl e)
      with None \<open>metadata (objects st ! read h) = Some md\<close> assms show ?thesis
        by (simp add: sourceMap_Value_def)
    next
      case (Inr v)
      with None \<open>metadata (objects st ! read h) = Some md\<close> assms
      have st': "st' = update_metadata st (read h) (\<lambda>m. m\<lparr>sourceMap := Some v\<rparr>)"
        by (simp add: sourceMap_Value_def)
      have sto: "store st' = store st" by (simp add: st' update_metadata_def)
      have fac: "\<And>m. sourceMap_factory st' m = sourceMap_factory st m"
        unfolding sourceMap_factory_def sto ..
      show ?thesis
      proof (cases "read h2 = read h \<and> read h < length (objects st)")
        case True
        then have "metadata (objects st' ! read h2) = Some (md\<lparr>sourceMap := Some v\<rparr>)"
          using \<open>metadata (objects st ! read h) = Some md\<close> by (simp add: st' update_metadata_def)
        moreover have "metadata (objects st ! read h2) = Some md"
          using True \<open>metadata (objects st ! read h) = Some md\<close> by simp
        ultimately show ?thesis using None Inr by (simp add: sourceMap_Value_def)
      next
        case False
        then have "objects st' ! read h2 = objects st ! read h2"
          by (auto simp: st' update_metadata_def list_update_beyond)
        then show ?thesis by (simp add: sourceMap_Value_def fac split: option.splits sum.splits)
      qed
    qed
  qed
qed

text \<open>A description is shorter than its key.\<close>

lemma length_encodeURIComponent: "length d \<le> length (encodeURIComponent d)"
proof (induction d)
  case Nil
  then show ?case by simp
next
  case (Cons c d)
  have "1 \<le> length (encodeChar c)" by (simp add: encodeChar_def)
  with Cons show ?case by simp
qed

lemma description_not_key:
  assumes "store_inv st" and "store st k = Some r" and "Description \<lparr>key = k, read = r'\<rparr> = Inr d"
  shows "d \<noteq> k"
proof -
  from assms(1,2) obtain n d' where k: "k = BaseUri @ toString_nat n @ CHR ''?'' # encodeURIComponent d'"
    unfolding store_inv_def by (fastforce simp: createUri_eq)
  have "fst (createUri (st\<lparr>uid := n\<rparr>) d') = k" by (simp add: createUri_eq k)
  with Description_createUri[of "st\<lparr>uid := n\<rparr>" d' r'] assms(3) have "d = d'" by simp
  moreover have "length d' < length k"
    using length_encodeURIComponent[of d'] by (simp add: k)
  ultimately show ?thesis by auto
qed

lemma BlameTree_Create_node:
  "BlameTree_Create n st p = Some (Inr t) \<Longrightarrow> node t = p"
  by (cases n) (auto split: sum.splits option.splits)

lemma DataStore_Blame_node:
  "DataStore_Blame n st k position = Some (Inr t) \<Longrightarrow>
   line (node t) = Some (Position.line position) \<and> column (node t) = Position.column position"
  by (auto simp: DataStore_Blame_def split: sum.splits dest!: BlameTree_Create_node)

lemma compiled_leaf:
  assumes "line root = Some (int (generatedLine e))" and "column root = int (generatedColumn e)"
  shows "compiledItem (leafMapping root leaf) = flattenedEntry e leaf"
  using assms by (simp add: compiledItem_def leafMapping_def flattenedEntry_def)

lemma CreateInputSourceMapFor_result:
  assumes "CreateInputSourceMapFor n st k = Some (Inr sm)"
  shows "\<exists>h own. ReadStrictSync st k = Inr h \<and> fst (sourceMap_Value st h) = Inr own
           \<and> file' sm = k
           \<and> mappings sm = flatten n st k (mappings own)
           \<and> (\<forall>e \<in> set (mappings own). \<exists>tree.
                 DataStore_Blame n st k
                   \<lparr>Position.line = int (generatedLine e), Position.column = int (generatedColumn e)\<rparr>
                 = Some (Inr tree))
           \<and> (\<forall>e \<in> set (mappings own). \<forall>leaf \<in> set (blameLeaves n st k e).
                 \<exists>friendly. friendlyName st (MappedPosition.source leaf) = Inr friendly)"
proof -
  from assms obtain h where h: "ReadStrictSync st k = Inr h"
    by (cases "ReadStrictSync st k") (auto simp: CreateInputSourceMapFor_def)
  with assms obtain own where own: "fst (sourceMap_Value st h) = Inr own"
    by (cases "fst (sourceMap_Value st h)") (auto simp: CreateInputSourceMapFor_def)
  define pos :: "MappingItem \<Rightarrow> Position" where "pos = (\<lambda>m. \<lparr>Position.line = int (generatedLine m), Position.column = int (generatedColumn m)\<rparr>)"
  from assms h own obtain ms where c: "collectBlame n st k (map pos (mappings own)) [] = Some (Inr ms)"
    and sm: "sm = Compile ms k"
    by (auto simp: CreateInputSourceMapFor_def Let_def pos_def split: option.splits sum.splits)
  from collectBlame_result[OF c]
  have trees: "\<forall>t \<in> set (map pos (mappings own)). \<exists>tree. DataStore_Blame n st k t = Some (Inr tree)
         \<and> (\<forall>leaf \<in> set (BlameLeafs tree). \<exists>friendly. friendlyName st (MappedPosition.source leaf) = Inr friendly)"
    and ms: "ms = concat (map (\<lambda>t. case DataStore_Blame n st k t of
                                       Some (Inr tree) \<Rightarrow> map (leafMapping (node tree)) (BlameLeafs tree)
                                     | _ \<Rightarrow> []) (map pos (mappings own)))"
    by auto
  have per: "map compiledItem (case DataStore_Blame n st k (pos e) of
                                       Some (Inr tree) \<Rightarrow> map (leafMapping (node tree)) (BlameLeafs tree)
                                     | _ \<Rightarrow> [])
             = map (flattenedEntry e) (blameLeaves n st k e)" for e
  proof (cases "DataStore_Blame n st k (pos e)")
    case None
    then show ?thesis by (simp add: blameLeaves_def pos_def)
  next
    case (Some r)
    show ?thesis
    proof (cases r)
      case (Inl err)
      with Some show ?thesis by (simp add: blameLeaves_def pos_def)
    next
      case (Inr tree)
      with Some have t: "DataStore_Blame n st k (pos e) = Some (Inr tree)" by simp
      from DataStore_Blame_node[OF t] have "line (node tree) = Some (int (generatedLine e))"
        and "column (node tree) = int (generatedColumn e)" by (simp_all add: pos_def)
      then have "\<And>leaf. compiledItem (leafMapping (node tree) leaf) = flattenedEntry e leaf"
        by (rule compiled_leaf)
      with t[unfolded pos_def] show ?thesis by (simp add: blameLeaves_def pos_def)
    qed
  qed
  have m: "mappings sm = flatten n st k (mappings own)"
    by (simp add: sm Compile_def ms map_concat comp_def per flatten_def)
  have f: "file' sm = k" by (simp add: sm Compile_def)
  have t1: "\<forall>e \<in> set (mappings own). \<exists>tree. DataStore_Blame n st k (pos e) = Some (Inr tree)"
    using trees by auto
  have t2: "\<forall>e \<in> set (mappings own). \<forall>leaf \<in> set (blameLeaves n st k e).
                 \<exists>friendly. friendlyName st (MappedPosition.source leaf) = Inr friendly"
  proof (intro ballI)
    fix e leaf assume e: "e \<in> set (mappings own)" and l: "leaf \<in> set (blameLeaves n st k e)"
    from trees e obtain tree where t: "DataStore_Blame n st k (pos e) = Some (Inr tree)"
      and fr: "\<forall>leaf \<in> set (BlameLeafs tree). \<exists>friendly. friendlyName st (MappedPosition.source leaf) = Inr friendly"
      by auto
    from l t have "leaf \<in> set (BlameLeafs tree)" by (simp add: blameLeaves_def pos_def)
    with fr show "\<exists>friendly. friendlyName st (MappedPosition.source leaf) = Inr friendly" by blast
  qed
  show ?thesis
    using h own f m t1[unfolded pos_def] t2 by blast
qed

lemma byLine_fst:
  "fst (sourceMapEachMappingByLine_Value st h) =
     (case metadata (objects st ! read h) of
        None \<Rightarrow> Inl TypeError
      | Some md \<Rightarrow>
          (case sourceMapEachMappingByLine md of
             Some v \<Rightarrow> Inr v
           | None \<Rightarrow>
               (case fst (sourceMap_Value st h) of
                  Inl e \<Rightarrow> Inl e
                | Inr sm \<Rightarrow> Inr (eachMapping_byLine (mappings sm)))))"
  by (simp add: sourceMapEachMappingByLine_Value_def Let_def split_def
      split: option.splits sum.splits prod.splits)

lemma sourceMap_Value_slots:
  assumes "sourceMap_Value st h = (r, st')"
  shows "map_option sourceMapEachMappingByLine (metadata (objects st' ! i))
       = map_option sourceMapEachMappingByLine (metadata (objects st ! i))"
proof (cases "i = read h \<and> i < length (objects st)")
  case True
  with assms show ?thesis
    by (auto simp: sourceMap_Value_def update_metadata_def split: option.splits sum.splits)
next
  case False
  with assms show ?thesis
    by (auto simp: sourceMap_Value_def update_metadata_def list_update_beyond split: option.splits sum.splits)
qed

lemma sourceMap_Value_byLine_stable:
  assumes "sourceMap_Value st h = (r, st')"
  shows "fst (sourceMapEachMappingByLine_Value st' h2) = fst (sourceMapEachMappingByLine_Value st h2)"
proof -
  have s: "fst (sourceMap_Value st' h2) = fst (sourceMap_Value st h2)"
    using assms by (rule sourceMap_Value_stable)
  from sourceMap_Value_slots[OF assms, of "read h2"] show ?thesis
    unfolding byLine_fst s
    by (cases "metadata (objects st' ! read h2)"; cases "metadata (objects st ! read h2)") auto
qed

lemma byLine_fill_sourceMap:
  "fst (sourceMap_Value (update_metadata st r (\<lambda>m. m\<lparr>sourceMapEachMappingByLine := Some v\<rparr>)) h2)
     = fst (sourceMap_Value st h2)"
proof -
  let ?st' = "update_metadata st r (\<lambda>m. m\<lparr>sourceMapEachMappingByLine := Some v\<rparr>)"
  have sto: "store ?st' = store st" by (simp add: update_metadata_def)
  have fac: "\<And>m. sourceMap_factory ?st' m = sourceMap_factory st m"
    unfolding sourceMap_factory_def sto ..
  have fac': "\<And>m. sourceMap_factory st (m\<lparr>sourceMapEachMappingByLine := Some v\<rparr>) = sourceMap_factory st m"
    by (simp add: sourceMap_factory_def Let_def split: option.splits)
  show ?thesis
  proof (cases "read h2 = r \<and> r < length (objects st)")
    case True
    then have "metadata (objects ?st' ! read h2)
        = map_option (\<lambda>m. m\<lparr>sourceMapEachMappingByLine := Some v\<rparr>) (metadata (objects st ! read h2))"
      by (simp add: update_metadata_def)
    then show ?thesis
      by (cases "metadata (objects st ! read h2)")
         (auto simp: sourceMap_Value_def fac fac' split: option.splits sum.splits)
  next
    case False
    then have "objects ?st' ! read h2 = objects st ! read h2"
      by (auto simp: update_metadata_def list_update_beyond)
    then show ?thesis by (simp add: sourceMap_Value_def fac split: option.splits sum.splits)
  qed
qed

lemma sourceMapEachMappingByLine_Value_stable:
  assumes "sourceMapEachMappingByLine_Value st h = (r, st')"
  shows "fst (sourceMapEachMappingByLine_Value st' h2) = fst (sourceMapEachMappingByLine_Value st h2)
       \<and> fst (sourceMap_Value st' h2) = fst (sourceMap_Value st h2)"
proof (cases "metadata (objects st ! read h)")
  case None
  with assms show ?thesis by (simp add: sourceMapEachMappingByLine_Value_def)
next
  case (Some md)
  show ?thesis
  proof (cases "sourceMapEachMappingByLine md")
    case (Some v)
    with \<open>metadata (objects st ! read h) = Some md\<close> assms show ?thesis
      by (simp add: sourceMapEachMappingByLine_Value_def)
  next
    case None
    obtain res st1 where sm: "sourceMap_Value st h = (res, st1)" by (cases "sourceMap_Value st h")
    have s1: "\<And>h2. fst (sourceMap_Value st1 h2) = fst (sourceMap_Value st h2)"
      using sm by (rule sourceMap_Value_stable)
    have b1: "\<And>h2. fst (sourceMapEachMappingByLine_Value st1 h2) = fst (sourceMapEachMappingByLine_Value st h2)"
      using sm by (rule sourceMap_Value_byLine_stable)
    show ?thesis
    proof (cases res)
      case (Inl e)
      with None \<open>metadata (objects st ! read h) = Some md\<close> assms sm have "st' = st1"
        by (simp add: sourceMapEachMappingByLine_Value_def)
      with s1 b1 show ?thesis by simp
    next
      case (Inr smv)
      define v where "v = eachMapping_byLine (mappings smv)"
      from Inr None \<open>metadata (objects st ! read h) = Some md\<close> assms sm
      have st': "st' = update_metadata st1 (read h) (\<lambda>m. m\<lparr>sourceMapEachMappingByLine := Some v\<rparr>)"
        by (simp add: sourceMapEachMappingByLine_Value_def Let_def v_def)
      have s2: "fst (sourceMap_Value st' h2) = fst (sourceMap_Value st h2)"
        unfolding st' byLine_fill_sourceMap s1 ..
      have slot1: "map_option sourceMapEachMappingByLine (metadata (objects st1 ! read h)) = Some None"
        using sourceMap_Value_slots[OF sm, of "read h"] None \<open>metadata (objects st ! read h) = Some md\<close>
        by simp
      have hv: "fst (sourceMapEachMappingByLine_Value st1 h) = Inr v"
        using slot1 s1[of h] sm Inr
        by (cases "metadata (objects st1 ! read h)") (auto simp: byLine_fst v_def)
      have b2: "fst (sourceMapEachMappingByLine_Value st' h2) = fst (sourceMapEachMappingByLine_Value st1 h2)"
      proof (cases "read h2 = read h \<and> read h < length (objects st1)")
        case True
        then have e: "read h2 = read h" by simp
        have e1: "sourceMap_Value st1 h2 = sourceMap_Value st1 h"
          unfolding sourceMap_Value_def e ..
        have "sourceMapEachMappingByLine_Value st1 h2 = sourceMapEachMappingByLine_Value st1 h"
          unfolding sourceMapEachMappingByLine_Value_def e e1 ..
        then have same: "fst (sourceMapEachMappingByLine_Value st1 h2) = Inr v"
          using hv by simp
        from True slot1 have "\<exists>m. metadata (objects st' ! read h2) = Some (m\<lparr>sourceMapEachMappingByLine := Some v\<rparr>)"
          by (cases "metadata (objects st1 ! read h)") (auto simp: st' update_metadata_def)
        then have "fst (sourceMapEachMappingByLine_Value st' h2) = Inr v"
          by (auto simp: byLine_fst)
        with same show ?thesis by simp
      next
        case False
        then have o: "objects st' ! read h2 = objects st1 ! read h2"
          by (auto simp: st' update_metadata_def list_update_beyond)
        have f: "fst (sourceMap_Value st' h2) = fst (sourceMap_Value st1 h2)"
          unfolding st' byLine_fill_sourceMap ..
        show ?thesis unfolding byLine_fst o f ..
      qed
      from b2 b1 s2 show ?thesis by simp
    qed
  qed
qed

text \<open>
  Claim C8. Take a record whose flattened view has not been computed, in a store in which
  the hops end below the fuel. The first access of the view returns (a table or an
  exception). When it is a table, the key the record was written under is in the store
  and has an own source map, and the table holds, for every entry of the own mapping
  table in turn, one entry for each leaf of the blame of the generated position of that
  entry, in the order of the leaves: its source is the friendly description of the source
  key of the leaf, its generated position that of the entry, its original position and
  its name those of the leaf. Each such blame has returned a tree; the source of every
  leaf is a key of the store, whose description differs from the key. The table is kept:
  a further access returns it with no further change.
\<close>

theorem flattened_table:
  assumes "store_inv st" and "hopsEnd st rank"
    and "metadata (objects st ! read h) = Some md" and "inputSourceMap md = None"
    and "rank (Some (uri md)) < n"
  shows "\<exists>r st'. inputSourceMap_Value n st h = (Some r, st')
       \<and> (\<forall>sm. r = Inr sm \<longrightarrow>
            (\<exists>d own. ReadStrictSync st (uri md) = Inr d \<and> fst (sourceMap_Value st d) = Inr own
               \<and> mappings sm = flatten n st (uri md) (mappings own)
               \<and> (\<forall>e \<in> set (mappings own). \<exists>tree.
                     DataStore_Blame n st (uri md)
                       \<lparr>Position.line = int (generatedLine e), Position.column = int (generatedColumn e)\<rparr>
                     = Some (Inr tree))
               \<and> (\<forall>e \<in> set (mappings own). \<forall>leaf \<in> set (blameLeaves n st (uri md) e).
                     \<exists>lk. MappedPosition.source leaf = Some lk \<and> store st lk \<noteq> None
                        \<and> Description \<lparr>key = lk, read = 0\<rparr> = Inr (descriptionOf (Some lk))
                        \<and> descriptionOf (Some lk) \<noteq> lk))
          \<and> (read h < length (objects st) \<longrightarrow> inputSourceMap_Value n' st' h = (Some (Inr sm), st')))"
proof -
  from CreateInputSourceMapFor_returns[OF assms(2,5)]
  obtain r where c: "CreateInputSourceMapFor n st (uri md) = Some r" by auto
  define st' where "st' = (case r of Inl e \<Rightarrow> st
      | Inr v \<Rightarrow> update_metadata st (read h) (\<lambda>m. m\<lparr>inputSourceMap := Some v\<rparr>))"
  have v: "inputSourceMap_Value n st h = (Some r, st')"
    using assms(3,4) c by (cases r) (simp_all add: inputSourceMap_Value_def st'_def)
  have "(\<exists>d own. ReadStrictSync st (uri md) = Inr d \<and> fst (sourceMap_Value st d) = Inr own
               \<and> mappings sm = flatten n st (uri md) (mappings own)
               \<and> (\<forall>e \<in> set (mappings own). \<exists>tree.
                     DataStore_Blame n st (uri md)
                       \<lparr>Position.line = int (generatedLine e), Position.column = int (generatedColumn e)\<rparr>
                     = Some (Inr tree))
               \<and> (\<forall>e \<in> set (mappings own). \<forall>leaf \<in> set (blameLeaves n st (uri md) e).
                     \<exists>lk. MappedPosition.source leaf = Some lk \<and> store st lk \<noteq> None
                        \<and> Description \<lparr>key = lk, read = 0\<rparr> = Inr (descriptionOf (Some lk))
                        \<and> descriptionOf (Some lk) \<noteq> lk))
          \<and> (read h < length (objects st) \<longrightarrow> inputSourceMap_Value n' st' h = (Some (Inr sm), st'))"
    if r: "r = Inr sm" for sm
  proof -
    from c r have c': "CreateInputSourceMapFor n st (uri md) = Some (Inr sm)" by simp
    from CreateInputSourceMapFor_result[OF c']
    obtain d own where d: "ReadStrictSync st (uri md) = Inr d" and own: "fst (sourceMap_Value st d) = Inr own"
      and m: "mappings sm = flatten n st (uri md) (mappings own)"
      and t: "\<forall>e \<in> set (mappings own). \<exists>tree.
                     DataStore_Blame n st (uri md)
                       \<lparr>Position.line = int (generatedLine e), Position.column = int (generatedColumn e)\<rparr>
                     = Some (Inr tree)"
      and f: "\<forall>e \<in> set (mappings own). \<forall>leaf \<in> set (blameLeaves n st (uri md) e).
                 \<exists>friendly. friendlyName st (MappedPosition.source leaf) = Inr friendly"
      by blast
    have l: "\<forall>e \<in> set (mappings own). \<forall>leaf \<in> set (blameLeaves n st (uri md) e).
                     \<exists>lk. MappedPosition.source leaf = Some lk \<and> store st lk \<noteq> None
                        \<and> Description \<lparr>key = lk, read = 0\<rparr> = Inr (descriptionOf (Some lk))
                        \<and> descriptionOf (Some lk) \<noteq> lk"
    proof (intro ballI)
      fix e leaf assume "e \<in> set (mappings own)" and "leaf \<in> set (blameLeaves n st (uri md) e)"
      with f obtain friendly where "friendlyName st (MappedPosition.source leaf) = Inr friendly" by blast
      from friendlyName_descriptionOf[OF this]
      obtain lk r' where s: "MappedPosition.source leaf = Some lk" and st: "store st lk = Some r'"
        and de: "Description \<lparr>key = lk, read = r'\<rparr> = Inr friendly"
        and eq: "descriptionOf (MappedPosition.source leaf) = friendly" by blast
      from de have de0: "Description \<lparr>key = lk, read = 0\<rparr> = Inr friendly" by (simp add: Description_def)
      from description_not_key[OF assms(1) st de] have "friendly \<noteq> lk" .
      with s st de0 eq
      show "\<exists>lk. MappedPosition.source leaf = Some lk \<and> store st lk \<noteq> None
                        \<and> Description \<lparr>key = lk, read = 0\<rparr> = Inr (descriptionOf (Some lk))
                        \<and> descriptionOf (Some lk) \<noteq> lk" by auto
    qed
    have again: "read h < length (objects st) \<longrightarrow> inputSourceMap_Value n' st' h = (Some (Inr sm), st')"
      using assms(3) r by (simp add: inputSourceMap_Value_def st'_def update_metadata_def)
    from d own m t l again show ?thesis by blast
  qed
  with v show ?thesis by blast
qed

section \<open>The flattened table of a chain of two hops\<close>

lemma two_store_inv:
  "store_inv (snd (WriteData example_store ''b'' ''bar'' ''text'' [''y''] (Some sound_factory)))"
  by (rule store_inv_WriteData) (rule example_store_inv)

lemma chain_store_inv: "store_inv chain_store"
  unfolding chain_store_def by (rule store_inv_WriteData) (rule two_store_inv)

lemma chain_store_eq:
  "chain_store =
     \<lparr>isCancellationRequested = False,
      store = [''mem://0?a'' \<mapsto> 0, ''mem://1?b'' \<mapsto> 1, ''mem://2?c'' \<mapsto> 2],
      uid = 3,
      objects =
        [\<lparr>data = ''foo'', metadata = Some (new_Metadata ''text'' None ''mem://0?a'' example_handle),
          identity = [''x'']\<rparr>,
         \<lparr>data = ''bar'',
          metadata = Some (new_Metadata ''text'' (Some sound_factory) ''mem://1?b'' \<lparr>key = ''mem://1?b'', read = 1\<rparr>),
          identity = [''y'']\<rparr>,
         \<lparr>data = ''baz'',
          metadata = Some (new_Metadata ''text'' (Some hop_factory) ''mem://2?c'' \<lparr>key = ''mem://2?c'', read = 2\<rparr>),
          identity = [''z'']\<rparr>]\<rparr>"
proof -
  let ?st2 = "snd (WriteData example_store ''b'' ''bar'' ''text'' [''y''] (Some sound_factory))"
  have st2: "?st2 = example_store\<lparr>uid := 2,
        store := [''mem://0?a'' \<mapsto> 0, ''mem://1?b'' \<mapsto> 1],
        objects := objects example_store @
          [\<lparr>data = ''bar'',
            metadata = Some (new_Metadata ''text'' (Some sound_factory) ''mem://1?b'' \<lparr>key = ''mem://1?b'', read = 1\<rparr>),
            identity = [''y'']\<rparr>]\<rparr>"
    by (simp add: example_write2)
  have nc: "\<not> isCancellationRequested ?st2" by (simp only: st2) (simp add: example_store_eq)
  have u: "uid ?st2 = 2" by (simp only: st2) simp
  have k: "fst (createUri ?st2 ''c'') = ''mem://2?c''"
    by (simp add: createUri_eq u toString_nat.simps digit_def BaseUri_def
      encodeChar_def uriUnreserved_def)
  have "chain_store = ?st2\<lparr>uid := uid ?st2 + 1,
          store := (store ?st2)(''mem://2?c'' \<mapsto> length (objects ?st2)),
          objects := objects ?st2 @
            [\<lparr>data = ''baz'',
              metadata = Some (new_Metadata ''text'' (Some hop_factory) ''mem://2?c''
                                \<lparr>key = ''mem://2?c'', read = length (objects ?st2)\<rparr>),
              identity = [''z'']\<rparr>]\<rparr>"
    unfolding chain_store_def WriteData_ok[OF nc two_store_inv] Let_def k by simp
  then show ?thesis
    by (simp only: st2) (simp add: example_store_eq eval_nat_numeral)
qed

lemma one_entry: "eachMapping_byLine [entry src 0 gc ol oc] = [[entry src 0 gc ol oc]]"
  by (simp add: eachMapping_byLine_def byLine_push_def pad_eq entry_def)

lemma no_entry: "eachMapping_byLine [] = []"
  by (simp add: eachMapping_byLine_def)

lemma chain_view_a:
  "fst (sourceMapEachMappingByLine_Value chain_store \<lparr>key = k, read = 0\<rparr>) = Inr []"
  by (simp add: byLine_fst sourceMap_Value_def sourceMap_factory_def chain_store_eq new_Metadata_def
      emptySourceMap_def no_entry)

lemma chain_map_b:
  "fst (sourceMap_Value chain_store \<lparr>key = k, read = Suc 0\<rparr>)
     = Inr \<lparr>file' = ''mem://1?b'', sources = [''mem://0?a''], mappings = [entry ''mem://0?a'' 0 5 0 0]\<rparr>"
  by (simp add: sourceMap_Value_def sourceMap_factory_def chain_store_eq new_Metadata_def
      sound_factory_def inputFiles_def)

lemma chain_view_b:
  "fst (sourceMapEachMappingByLine_Value chain_store \<lparr>key = k, read = Suc 0\<rparr>)
     = Inr [[entry ''mem://0?a'' 0 5 0 0]]"
  unfolding byLine_fst chain_map_b
  by (simp add: chain_store_eq new_Metadata_def one_entry)

lemma chain_map_c:
  "fst (sourceMap_Value chain_store \<lparr>key = k, read = 2\<rparr>)
     = Inr \<lparr>file' = ''mem://2?c'', sources = [''mem://1?b''], mappings = [entry ''mem://1?b'' 0 2 0 7]\<rparr>"
  by (simp add: sourceMap_Value_def sourceMap_factory_def chain_store_eq new_Metadata_def
      hop_factory_def inputFiles_def)

lemma chain_view_c:
  "fst (sourceMapEachMappingByLine_Value chain_store \<lparr>key = k, read = 2\<rparr>)
     = Inr [[entry ''mem://1?b'' 0 2 0 7]]"
  unfolding byLine_fst chain_map_c
  by (simp add: chain_store_eq new_Metadata_def one_entry)

lemma chain_read:
  "ReadStrictSync chain_store k =
     (if k = ''mem://2?c'' then Inr \<lparr>key = k, read = 2\<rparr>
      else if k = ''mem://1?b'' then Inr \<lparr>key = k, read = 1\<rparr>
      else if k = ''mem://0?a'' then Inr \<lparr>key = k, read = 0\<rparr>
      else Inl (DoesNotExist k))"
  by (simp add: ReadStrictSync_def chain_store_eq)

lemma chain_ownIndex:
  "ownIndex chain_store (Some k) =
     (if k = ''mem://2?c'' then Inr [[entry ''mem://1?b'' 0 2 0 7]]
      else if k = ''mem://1?b'' then Inr [[entry ''mem://0?a'' 0 5 0 0]]
      else if k = ''mem://0?a'' then Inr []
      else Inl (DoesNotExist k))"
  by (simp add: ownIndex_def chain_read chain_view_a chain_view_b chain_view_c)

lemma chain_hopsEnd: "hopsEnd chain_store chain_rank"
  unfolding hopsEnd_def
  by (auto simp: chain_ownIndex chain_rank_def entry_def split: if_splits)

lemma chain_blame_leaf:
  "BlameTree_Create (Suc n) chain_store chain_leaf = Some (Inr (BlameTree chain_leaf []))"
  by (simp add: chain_leaf_def chain_ownIndex Blame_at_def Blame_def byLine_at_def)

lemma chain_blame_b:
  "BlameTree_Create (Suc (Suc n)) chain_store
     \<lparr>MappedPosition.source = Some ''mem://1?b'', line = Some 0, column = 7, MappedPosition.name = None\<rparr>
   = Some (Inr (BlameTree
       \<lparr>MappedPosition.source = Some ''mem://1?b'', line = Some 0, column = 7, MappedPosition.name = None\<rparr>
       [BlameTree chain_leaf []]))"
proof -
  have b: "Blame_at [[entry ''mem://0?a'' 0 5 0 0]]
      \<lparr>MappedPosition.source = Some ''mem://1?b'', line = Some 0, column = 7, MappedPosition.name = None\<rparr>
      = [chain_leaf]"
    by (simp add: Blame_at_def Blame_def byLine_at_def entry_def js_add_def chain_leaf_def)
  show ?thesis
    unfolding BlameTree_Create.simps(2)[of "Suc n"]
    by (simp add: chain_ownIndex b chain_blame_leaf del: BlameTree_Create.simps)
qed

lemma chain_blame:
  "DataStore_Blame 3 chain_store ''mem://2?c'' \<lparr>Position.line = 0, Position.column = 2\<rparr>
   = Some (Inr (BlameTree
       \<lparr>MappedPosition.source = Some ''mem://2?c'', line = Some 0, column = 2,
        MappedPosition.name = Some (blameRoot_name \<lparr>Position.line = 0, Position.column = 2\<rparr>)\<rparr>
       [BlameTree
          \<lparr>MappedPosition.source = Some ''mem://1?b'', line = Some 0, column = 7, MappedPosition.name = None\<rparr>
          [BlameTree chain_leaf []]]))"
proof -
  have b: "Blame_at [[entry ''mem://1?b'' 0 2 0 7]]
      \<lparr>MappedPosition.source = Some ''mem://2?c'', line = Some 0, column = 2,
        MappedPosition.name = Some (blameRoot_name \<lparr>Position.line = 0, Position.column = 2\<rparr>)\<rparr>
      = [\<lparr>MappedPosition.source = Some ''mem://1?b'', line = Some 0, column = 7, MappedPosition.name = None\<rparr>]"
    by (simp add: Blame_at_def Blame_def byLine_at_def entry_def js_add_def)
  have three: "(3::nat) = Suc (Suc (Suc 0))" by simp
  show ?thesis
    unfolding DataStore_Blame_def three BlameTree_Create.simps(2)[of "Suc (Suc 0)"]
    by (simp add: chain_read chain_ownIndex b chain_blame_b del: BlameTree_Create.simps)
qed

lemma chain_friendly: "friendlyName chain_store (Some ''mem://0?a'') = Inr ''a''"
  by (simp add: friendlyName_def chain_read Description_def)

lemma chain_collect:
  "collectBlame 3 chain_store ''mem://2?c'' [\<lparr>Position.line = 0, Position.column = 2\<rparr>] [] =
     Some (Inr [\<lparr>name = None, source = ''a'',
                 generated = \<lparr>MappedPosition.source = Some ''mem://2?c'', line = Some 0, column = 2,
                    MappedPosition.name = Some (blameRoot_name \<lparr>Position.line = 0, Position.column = 2\<rparr>)\<rparr>,
                 original = chain_leaf\<rparr>])"
proof -
  have f: "friendlyName chain_store (MappedPosition.source chain_leaf) = Inr ''a''"
    by (simp add: chain_leaf_def chain_friendly)
  have n: "MappedPosition.name chain_leaf = None" by (simp add: chain_leaf_def)
  show ?thesis by (simp add: chain_blame f n)
qed

lemma chain_create: "CreateInputSourceMapFor 3 chain_store ''mem://2?c'' = Some (Inr chain_flat)"
proof -
  have r: "ReadStrictSync chain_store ''mem://2?c'' = Inr \<lparr>key = ''mem://2?c'', read = 2\<rparr>"
    by (simp add: chain_read)
  have t: "map (\<lambda>m. \<lparr>Position.line = int (generatedLine m), Position.column = int (generatedColumn m)\<rparr>)
             [entry ''mem://1?b'' 0 2 0 7] = [\<lparr>Position.line = 0, Position.column = 2\<rparr>]"
    by (simp add: entry_def)
  show ?thesis
    unfolding CreateInputSourceMapFor_def r sum.case chain_map_c Let_def RawSourceMap.simps t chain_collect
    by (simp add: Compile_def compiledItem_def chain_flat_def chain_leaf_def)
qed

lemma chain_flatten:
  "flatten 3 chain_store ''mem://2?c'' [entry ''mem://1?b'' 0 2 0 7] = mappings chain_flat"
  by (simp add: flatten_def blameLeaves_def entry_def chain_blame chain_leaf_def flattenedEntry_def
      descriptionOf_def Description_def chain_flat_def)

text \<open>
  The statement of C8 at the chain: the flattened table of \<^verbatim>\<open>mem://2?c\<close> has the one
  entry from (0,2) to (0,2) in the artifact described as \<^verbatim>\<open>a\<close>, two hops away.
\<close>

theorem flattened_table_witness:
  "store_inv chain_store \<and> hopsEnd chain_store chain_rank
   \<and> chain_rank (Some ''mem://2?c'') < 3
   \<and> fst (sourceMap_Value chain_store \<lparr>key = ''mem://2?c'', read = 2\<rparr>)
       = Inr \<lparr>file' = ''mem://2?c'', sources = [''mem://1?b''], mappings = [entry ''mem://1?b'' 0 2 0 7]\<rparr>
   \<and> (\<exists>st'. inputSourceMap_Value 3 chain_store \<lparr>key = ''mem://2?c'', read = 2\<rparr>
               = (Some (Inr chain_flat), st')
          \<and> inputSourceMap_Value 0 st' \<lparr>key = ''mem://2?c'', read = 2\<rparr> = (Some (Inr chain_flat), st'))
   \<and> mappings chain_flat = flatten 3 chain_store ''mem://2?c'' [entry ''mem://1?b'' 0 2 0 7]
   \<and> mappings chain_flat =
        [\<lparr>MappingItem.source = Some ''a'', generatedLine = 0, generatedColumn = 2,
          originalLine = Some 0, originalColumn = Some 2, MappingItem.name = None\<rparr>]"
proof -
  let ?h = "\<lparr>key = ''mem://2?c'', read = 2\<rparr>"
  let ?md = "new_Metadata ''text'' (Some hop_factory) ''mem://2?c'' ?h"
  have md: "metadata (objects chain_store ! read ?h) = Some ?md" by (simp add: chain_store_eq)
  have slot: "inputSourceMap ?md = None" by (simp add: new_Metadata_def)
  have u: "uri ?md = ''mem://2?c''" by (simp add: new_Metadata_def)
  have rk: "chain_rank (Some (uri ?md)) < 3" by (simp add: u chain_rank_def)
  have len: "read ?h < length (objects chain_store)" by (simp add: chain_store_eq)
  from flattened_table[OF chain_store_inv chain_hopsEnd md slot rk, of 0]
  obtain r st' where v: "inputSourceMap_Value 3 chain_store ?h = (Some r, st')"
    and c: "\<forall>sm. r = Inr sm \<longrightarrow>
            (\<exists>d own. ReadStrictSync chain_store (uri ?md) = Inr d \<and> fst (sourceMap_Value chain_store d) = Inr own
               \<and> mappings sm = flatten 3 chain_store (uri ?md) (mappings own))
          \<and> (read ?h < length (objects chain_store) \<longrightarrow> inputSourceMap_Value 0 st' ?h = (Some (Inr sm), st'))"
    by blast
  have "fst (inputSourceMap_Value 3 chain_store ?h) = Some (Inr chain_flat)"
    using md slot by (simp add: inputSourceMap_Value_def u chain_create)
  with v have r: "r = Inr chain_flat" by simp
  with c len obtain d own where d: "ReadStrictSync chain_store (uri ?md) = Inr d"
    and own: "fst (sourceMap_Value chain_store d) = Inr own"
    and m: "mappings chain_flat = flatten 3 chain_store (uri ?md) (mappings own)"
    and again: "inputSourceMap_Value 0 st' ?h = (Some (Inr chain_flat), st')" by blast
  from d have "d = ?h" by (simp add: u chain_read)
  with own have "own = \<lparr>file' = ''mem://2?c'', sources = [''mem://1?b''], mappings = [entry ''mem://1?b'' 0 2 0 7]\<rparr>"
    using chain_map_c[of "''mem://2?c''"] by simp
  with m have m': "mappings chain_flat = flatten 3 chain_store ''mem://2?c'' [entry ''mem://1?b'' 0 2 0 7]"
    by (simp add: u)
  have rk': "chain_rank (Some ''mem://2?c'') < 3" by (simp add: chain_rank_def)
  have sm: "fst (sourceMap_Value chain_store ?h)
       = Inr \<lparr>file' = ''mem://2?c'', sources = [''mem://1?b''], mappings = [entry ''mem://1?b'' 0 2 0 7]\<rparr>"
    by (rule chain_map_c)
  have ex: "\<exists>st'. inputSourceMap_Value 3 chain_store ?h = (Some (Inr chain_flat), st')
          \<and> inputSourceMap_Value 0 st' ?h = (Some (Inr chain_flat), st')"
    using v r again by blast
  have fl: "mappings chain_flat =
        [\<lparr>MappingItem.source = Some ''a'', generatedLine = 0, generatedColumn = 2,
          originalLine = Some 0, originalColumn = Some 2, MappingItem.name = None\<rparr>]"
    by (simp add: chain_flat_def)
  show ?thesis
    by (intro conjI) (fact chain_store_inv chain_hopsEnd rk' sm ex m' fl)+
qed

end
